theory Spec2Isabelle
  imports Main "HOL-Library.Word" "HOL-Library.Monad_Syntax"
begin

section \<open>Common definitions\<close>

text \<open>
  Both containers report every failure by throwing \<^verbatim>\<open>std::out_of_range\<close> with a
  message.  An exception is a value of type \<open>error\<close>; an operation that may throw
  returns \<open>error + 'a\<close> (\<open>Inl\<close> the exception) together with the state it leaves
  behind.  Where an operation may dereference an invalid pointer or iterator, or may
  loop forever, its result is wrapped in \<open>option\<close>, and \<open>None\<close> stands for
  "no defined result".
\<close>

datatype error = out_of_range string

text \<open>\<^verbatim>\<open>std::size_t\<close> is taken to be 64 bits wide; \<open>++size\<close> and \<open>--size\<close> wrap.\<close>

type_synonym size_type = "64 word"

section \<open>HashMap\<close>

subsection \<open>Data\<close>

definition MAP_SIZE :: nat where
  "MAP_SIZE = 11"

text \<open>
  The template arguments supply \<^verbatim>\<open>std::hash<key_type>\<close>, the value-initialised
  \<^verbatim>\<open>mapped_type{}\<close> and the meaning of \<^verbatim>\<open>"Map does not contain key: " + key\<close>,
  the argument of \<^verbatim>\<open>std::out_of_range\<close>.  That expression depends on the key type and
  need not have a value: \<open>literal_plus\<close> gives the message, or \<open>None\<close> where the
  expression has no defined result.
\<close>

record ('k, 'v) targs =
  hash :: "'k \<Rightarrow> nat"
  mapped_type :: 'v
  literal_plus :: "string \<Rightarrow> 'k \<Rightarrow> string option"

text \<open>
  For \<^verbatim>\<open>std::string\<close> keys the expression is \<^verbatim>\<open>operator+(const char *, const std::string &)\<close>,
  the concatenation.
\<close>

definition literal_plus_string :: "string \<Rightarrow> string \<Rightarrow> string option" where
  "literal_plus_string s key = Some (s @ key)"

text \<open>
  For integral keys the expression is pointer arithmetic: the literal \<open>s\<close> is an array of
  \<open>length s + 1\<close> characters, the last one the terminating zero, and \<^verbatim>\<open>s + key\<close>
  points \<open>key\<close> characters into it.  \<^verbatim>\<open>std::out_of_range(const char *)\<close> reads the
  string that starts there: the literal without its first \<open>key\<close> characters when
  \<open>0 \<le> key \<le> length s\<close>, and nothing defined for any other key.
\<close>

definition literal_plus_int :: "string \<Rightarrow> int \<Rightarrow> string option" where
  "literal_plus_int s key =
     (if 0 \<le> key \<and> key \<le> int (length s) then Some (drop (nat key) s) else None)"

text \<open>
  \<^verbatim>\<open>std::array<std::list<value_type>, MAP_SIZE> buckets; size_type size;\<close>
  The array is a list of \<open>MAP_SIZE\<close> buckets, each bucket the list of its pairs.
\<close>

record ('k, 'v) HashMap =
  buckets :: "('k \<times> 'v) list list"
  HashMap_size :: size_type

text \<open>
  A \<^verbatim>\<open>std::list\<close> iterator is the bucket whose list it belongs to and its offset
  in that list; the offset \<open>length\<close> of the list is that list's \<^verbatim>\<open>end()\<close>.
  A \<^verbatim>\<open>ConstIterator\<close> holds the index of \<^verbatim>\<open>currentBucket\<close> and the list
  iterator \<^verbatim>\<open>iter\<close>; the array it refers to is passed to each operation.
\<close>

type_synonym valueTypeIterator = "nat \<times> nat"

record HashMap_ConstIterator =
  currentBucket :: nat
  iter :: valueTypeIterator

text \<open>A \<^verbatim>\<open>mapped_type &\<close> into a hash map is the position of the pair it lies in.\<close>

type_synonym HashMap_reference = "nat \<times> nat"

definition HashMap_ref_get :: "('k, 'v) HashMap \<Rightarrow> HashMap_reference \<Rightarrow> 'v option" where
  "HashMap_ref_get m r =
     (if fst r < length (buckets m) \<and> snd r < length (buckets m ! fst r)
      then Some (snd (buckets m ! fst r ! snd r)) else None)"

definition HashMap_ref_set ::
  "('k, 'v) HashMap \<Rightarrow> HashMap_reference \<Rightarrow> 'v \<Rightarrow> ('k, 'v) HashMap option" where
  "HashMap_ref_set m r v =
     (if fst r < length (buckets m) \<and> snd r < length (buckets m ! fst r)
      then Some (m\<lparr>buckets := (buckets m)
                 [fst r := (buckets m ! fst r)[snd r := (fst (buckets m ! fst r ! snd r), v)]]\<rparr>)
      else None)"

subsection \<open>Construction, lookup, insertion, removal\<close>

definition HashMap_empty :: "('k, 'v) HashMap" where
  "HashMap_empty = \<lparr>buckets = replicate MAP_SIZE [], HashMap_size = 0\<rparr>"

definition HashMap_isEmpty :: "('k, 'v) HashMap \<Rightarrow> bool" where
  "HashMap_isEmpty m = (HashMap_size m = 0)"

definition HashMap_getSize :: "('k, 'v) HashMap \<Rightarrow> size_type" where
  "HashMap_getSize m = HashMap_size m"

definition HashMap_findBucket :: "('k, 'v) targs \<Rightarrow> 'k \<Rightarrow> nat" where
  "HashMap_findBucket T key = hash T key mod MAP_SIZE"

text \<open>\<^verbatim>\<open>std::find_if\<close> over one bucket: the offset of the first pair with the key,
  or the length of the bucket (its \<^verbatim>\<open>end()\<close>).\<close>

fun find_if_key :: "('k \<times> 'v) list \<Rightarrow> 'k \<Rightarrow> nat" where
  "find_if_key [] key = 0"
| "find_if_key (v # vs) key = (if fst v = key then 0 else Suc (find_if_key vs key))"

definition HashMap_findInBucket ::
  "('k, 'v) HashMap \<Rightarrow> nat \<Rightarrow> 'k \<Rightarrow> valueTypeIterator" where
  "HashMap_findInBucket m bucket key = (bucket, find_if_key (buckets m ! bucket) key)"

definition HashMap_operator_subscript ::
  "('k, 'v) targs \<Rightarrow> ('k, 'v) HashMap \<Rightarrow> 'k \<Rightarrow> HashMap_reference \<times> ('k, 'v) HashMap" where
  "HashMap_operator_subscript T m key =
     (let bucket = HashMap_findBucket T key;
          found = HashMap_findInBucket m bucket key
      in if found = (bucket, length (buckets m ! bucket))
         then ((bucket, length (buckets m ! bucket)),
               m\<lparr>buckets := (buckets m)[bucket := buckets m ! bucket @ [(key, mapped_type T)]],
                 HashMap_size := HashMap_size m + 1\<rparr>)
         else (found, m))"

text \<open>
  In \<^verbatim>\<open>findOrThrow\<close> and \<^verbatim>\<open>remove(key)\<close> the exception is built from the message
  expression first; where that expression has no defined result, neither has the call.
\<close>

definition HashMap_findOrThrow ::
  "('k, 'v) targs \<Rightarrow> ('k, 'v) HashMap \<Rightarrow> 'k \<Rightarrow> (error + HashMap_reference) option" where
  "HashMap_findOrThrow T m key =
     (let bucket = HashMap_findBucket T key;
          bucket_it = (bucket, find_if_key (buckets m ! bucket) key)
      in if bucket_it = (bucket, length (buckets m ! bucket))
         then do {
           msg \<leftarrow> literal_plus T ''Map does not contain key: '' key;
           Some (Inl (out_of_range msg))
         }
         else Some (Inr bucket_it))"

definition HashMap_valueOf ::
  "('k, 'v) targs \<Rightarrow> ('k, 'v) HashMap \<Rightarrow> 'k
     \<Rightarrow> ((error + HashMap_reference) \<times> ('k, 'v) HashMap) option" where
  "HashMap_valueOf T m key = do { r \<leftarrow> HashMap_findOrThrow T m key; Some (r, m) }"

definition HashMap_remove_key ::
  "('k, 'v) targs \<Rightarrow> ('k, 'v) HashMap \<Rightarrow> 'k \<Rightarrow> ((error + unit) \<times> ('k, 'v) HashMap) option" where
  "HashMap_remove_key T m key =
     (let bucket = HashMap_findBucket T key;
          found = HashMap_findInBucket m bucket key
      in if found = (bucket, length (buckets m ! bucket))
         then do {
           msg \<leftarrow> literal_plus T ''Map does not contain key: '' key;
           Some (Inl (out_of_range msg), m)
         }
         else Some (Inr (),
               m\<lparr>buckets := (buckets m)
                    [bucket := take (snd found) (buckets m ! bucket)
                               @ drop (Suc (snd found)) (buckets m ! bucket)],
                 HashMap_size := HashMap_size m - 1\<rparr>))"

subsection \<open>Iterators\<close>

text \<open>
  \<^verbatim>\<open>next()\<close>: while \<^verbatim>\<open>iter\<close> is the end of the current bucket and that bucket is
  not the last one, move to the beginning of the following bucket.  A current bucket
  outside the array has no defined result.
\<close>

function HashMap_next ::
  "('k \<times> 'v) list list \<Rightarrow> HashMap_ConstIterator \<Rightarrow> HashMap_ConstIterator option" where
  "HashMap_next bs it =
     (if length bs \<le> currentBucket it then None
      else if iter it = (currentBucket it, length (bs ! currentBucket it))
              \<and> currentBucket it \<noteq> length bs - 1
      then HashMap_next bs (it\<lparr>currentBucket := currentBucket it + 1,
                               iter := (currentBucket it + 1, 0)\<rparr>)
      else Some it)"
  by pat_completeness auto
termination
  by (relation "measure (\<lambda>(bs, it). length bs - currentBucket it)") auto

declare HashMap_next.simps [simp del]

definition HashMap_isEnd :: "('k \<times> 'v) list list \<Rightarrow> HashMap_ConstIterator \<Rightarrow> bool" where
  "HashMap_isEnd bs it = (iter it = (length bs - 1, length (bs ! (length bs - 1))))"

text \<open>The constructor \<^verbatim>\<open>ConstIterator(buckets, currentBucket, iter)\<close>.\<close>

definition HashMap_ConstIterator_new ::
  "('k \<times> 'v) list list \<Rightarrow> nat \<Rightarrow> valueTypeIterator \<Rightarrow> HashMap_ConstIterator option" where
  "HashMap_ConstIterator_new bs b i =
     (if length bs \<le> b then None
      else if i = (b, length (bs ! b))
      then HashMap_next bs \<lparr>currentBucket = b, iter = i\<rparr>
      else Some \<lparr>currentBucket = b, iter = i\<rparr>)"

definition HashMap_begin :: "('k, 'v) HashMap \<Rightarrow> HashMap_ConstIterator option" where
  "HashMap_begin m = HashMap_ConstIterator_new (buckets m) 0 (0, 0)"

definition HashMap_end :: "('k, 'v) HashMap \<Rightarrow> HashMap_ConstIterator option" where
  "HashMap_end m =
     HashMap_ConstIterator_new (buckets m) (length (buckets m) - 1)
       (length (buckets m) - 1, length (buckets m ! (length (buckets m) - 1)))"

definition HashMap_find ::
  "('k, 'v) targs \<Rightarrow> ('k, 'v) HashMap \<Rightarrow> 'k \<Rightarrow> HashMap_ConstIterator option" where
  "HashMap_find T m key =
     (let bucket = HashMap_findBucket T key;
          found = HashMap_findInBucket m bucket key
      in HashMap_ConstIterator_new (buckets m) bucket found)"

text \<open>\<^verbatim>\<open>operator++\<close>: \<^verbatim>\<open>++iter\<close> on the end of a list has no defined result.\<close>

definition HashMap_ConstIterator_incr ::
  "('k \<times> 'v) list list \<Rightarrow> HashMap_ConstIterator
     \<Rightarrow> ((error + unit) \<times> HashMap_ConstIterator) option" where
  "HashMap_ConstIterator_incr bs it =
     (if HashMap_isEnd bs it then Some (Inl (out_of_range ''Index out of range''), it)
      else if length bs \<le> fst (iter it) \<or> length (bs ! fst (iter it)) \<le> snd (iter it)
      then None
      else do {
        it' \<leftarrow> HashMap_next bs (it\<lparr>iter := (fst (iter it), snd (iter it) + 1)\<rparr>);
        Some (Inr (), it')
      })"

text \<open>
  The loop of \<^verbatim>\<open>operator--\<close>:
  \<^verbatim>\<open>while (currentBucket->empty() && currentBucket != buckets.begin()) --currentBucket;\<close>
\<close>

fun HashMap_skip_back :: "('k \<times> 'v) list list \<Rightarrow> nat \<Rightarrow> nat" where
  "HashMap_skip_back bs 0 = 0"
| "HashMap_skip_back bs (Suc b) = (if bs ! Suc b = [] then HashMap_skip_back bs b else Suc b)"

definition HashMap_ConstIterator_decr ::
  "('k \<times> 'v) list list \<Rightarrow> HashMap_ConstIterator
     \<Rightarrow> ((error + unit) \<times> HashMap_ConstIterator) option" where
  "HashMap_ConstIterator_decr bs it =
     (if length bs \<le> currentBucket it then None
      else if iter it = (currentBucket it, 0)
      then (let b = HashMap_skip_back bs (currentBucket it)
            in if bs ! b = []
               then Some (Inl (out_of_range ''Iterator out of range''), it\<lparr>currentBucket := b\<rparr>)
               else Some (Inr (), it\<lparr>currentBucket := b, iter := (b, length (bs ! b) - 1)\<rparr>))
      else if snd (iter it) = 0 then None
      else Some (Inr (), it\<lparr>iter := (fst (iter it), snd (iter it) - 1)\<rparr>))"

definition HashMap_ConstIterator_deref ::
  "('k \<times> 'v) list list \<Rightarrow> HashMap_ConstIterator \<Rightarrow> (error + 'k \<times> 'v) option" where
  "HashMap_ConstIterator_deref bs it =
     (if HashMap_isEnd bs it then Some (Inl (out_of_range ''Iterator out of range''))
      else if length bs \<le> fst (iter it) \<or> length (bs ! fst (iter it)) \<le> snd (iter it)
      then None
      else Some (Inr (bs ! fst (iter it) ! snd (iter it))))"

definition HashMap_ConstIterator_eq ::
  "HashMap_ConstIterator \<Rightarrow> HashMap_ConstIterator \<Rightarrow> bool" where
  "HashMap_ConstIterator_eq a b = (currentBucket a = currentBucket b \<and> iter a = iter b)"


definition HashMap_remove ::
  "('k, 'v) HashMap \<Rightarrow> HashMap_ConstIterator \<Rightarrow> ((error + unit) \<times> ('k, 'v) HashMap) option" where
  "HashMap_remove m it =
     do {
       e \<leftarrow> HashMap_end m;
       if HashMap_ConstIterator_eq it e
       then Some (Inl (out_of_range ''Iterator out of range''), m)
       else if fst (iter it) \<noteq> currentBucket it \<or> length (buckets m) \<le> currentBucket it
               \<or> length (buckets m ! currentBucket it) \<le> snd (iter it)
       then None
       else Some (Inr (),
              m\<lparr>buckets := (buckets m)
                   [currentBucket it := take (snd (iter it)) (buckets m ! currentBucket it)
                        @ drop (Suc (snd (iter it))) (buckets m ! currentBucket it)],
                HashMap_size := HashMap_size m - 1\<rparr>)
     }"

subsection \<open>Equality, copying and moving\<close>

definition HashMap_operator_eq :: "('k, 'v) HashMap \<Rightarrow> ('k, 'v) HashMap \<Rightarrow> bool" where
  "HashMap_operator_eq this other =
     (if HashMap_size this \<noteq> HashMap_size other then False else buckets this = buckets other)"

text \<open>The statement \<^verbatim>\<open>(*this)[v.first] = v.second\<close>.\<close>

definition HashMap_put ::
  "('k, 'v) targs \<Rightarrow> ('k, 'v) HashMap \<Rightarrow> 'k \<times> 'v \<Rightarrow> ('k, 'v) HashMap option" where
  "HashMap_put T m v =
     (case HashMap_operator_subscript T m (fst v) of (r, m') \<Rightarrow> HashMap_ref_set m' r (snd v))"

text \<open>
  \<^verbatim>\<open>std::for_each(first, last, f)\<close> with \<open>f\<close> the statement above; \<open>bs\<close> is the
  bucket array the two iterators range over.
\<close>

partial_function (option) HashMap_fill ::
  "('k, 'v) targs \<Rightarrow> ('k \<times> 'v) list list \<Rightarrow> HashMap_ConstIterator \<Rightarrow> HashMap_ConstIterator
     \<Rightarrow> ('k, 'v) HashMap \<Rightarrow> ((error + unit) \<times> ('k, 'v) HashMap) option" where
  "HashMap_fill T bs first last' m =
     (if HashMap_ConstIterator_eq first last' then Some (Inr (), m)
      else do {
        d \<leftarrow> HashMap_ConstIterator_deref bs first;
        case d of
          Inl e \<Rightarrow> Some (Inl e, m)
        | Inr v \<Rightarrow> do {
            m' \<leftarrow> HashMap_put T m v;
            s \<leftarrow> HashMap_ConstIterator_incr bs first;
            case s of
              (Inl e, first') \<Rightarrow> Some (Inl e, m')
            | (Inr u, first') \<Rightarrow> HashMap_fill T bs first' last' m'
          }
      })"

text \<open>\<^verbatim>\<open>HashMap(std::initializer_list<value_type> list)\<close>\<close>

fun HashMap_put_all ::
  "('k, 'v) targs \<Rightarrow> ('k, 'v) HashMap \<Rightarrow> ('k \<times> 'v) list \<Rightarrow> ('k, 'v) HashMap option" where
  "HashMap_put_all T m [] = Some m"
| "HashMap_put_all T m (v # vs) = do { m' \<leftarrow> HashMap_put T m v; HashMap_put_all T m' vs }"

definition HashMap_of_list :: "('k, 'v) targs \<Rightarrow> ('k \<times> 'v) list \<Rightarrow> ('k, 'v) HashMap option" where
  "HashMap_of_list T vs = HashMap_put_all T HashMap_empty vs"

text \<open>\<^verbatim>\<open>HashMap(const HashMap &other)\<close>\<close>

definition HashMap_copy ::
  "('k, 'v) targs \<Rightarrow> ('k, 'v) HashMap \<Rightarrow> ((error + unit) \<times> ('k, 'v) HashMap) option" where
  "HashMap_copy T other =
     do {
       b \<leftarrow> HashMap_begin other;
       e \<leftarrow> HashMap_end other;
       HashMap_fill T (buckets other) b e HashMap_empty
     }"

text \<open>
  \<^verbatim>\<open>HashMap(HashMap &&other)\<close>: the result is the new map and what is left of
  \<open>other\<close>.  A moved-from \<^verbatim>\<open>std::list\<close> is empty.
\<close>

definition HashMap_move :: "('k, 'v) HashMap \<Rightarrow> ('k, 'v) HashMap \<times> ('k, 'v) HashMap" where
  "HashMap_move other =
     (\<lparr>buckets = buckets other, HashMap_size = HashMap_size other\<rparr>,
      other\<lparr>buckets := replicate (length (buckets other)) []\<rparr>)"

text \<open>
  The assignment operators compare the addresses of the two maps, so they work on a
  store of maps: \<open>this\<close> and \<open>other\<close> are addresses.
\<close>

type_synonym 'a store = "nat \<Rightarrow> 'a"

definition HashMap_copy_assign ::
  "('k, 'v) targs \<Rightarrow> ('k, 'v) HashMap store \<Rightarrow> nat \<Rightarrow> nat
     \<Rightarrow> ((error + unit) \<times> ('k, 'v) HashMap store) option" where
  "HashMap_copy_assign T s this other =
     (if this = other then Some (Inr (), s)
      else do {
        b \<leftarrow> HashMap_begin (s other);
        e \<leftarrow> HashMap_end (s other);
        r \<leftarrow> HashMap_fill T (buckets (s other)) b e ((s this)\<lparr>HashMap_size := 0\<rparr>);
        Some (fst r, s(this := snd r))
      })"

definition HashMap_move_assign ::
  "('k, 'v) HashMap store \<Rightarrow> nat \<Rightarrow> nat \<Rightarrow> ('k, 'v) HashMap store" where
  "HashMap_move_assign s this other =
     (if this = other then s
      else s(this := (s this)\<lparr>HashMap_size := HashMap_size (s other), buckets := buckets (s other)\<rparr>,
             other := (s other)\<lparr>buckets := replicate (length (buckets (s other))) []\<rparr>))"


declare HashMap_fill.simps [code]

section \<open>TreeMap\<close>

subsection \<open>Data\<close>

text \<open>
  A \<^verbatim>\<open>node_pointer\<close> is \<open>None\<close> (\<^verbatim>\<open>nullptr\<close>) or the address of a node.  The heap
  is the list of all cells ever allocated: \<^verbatim>\<open>new\<close> appends a cell, \<^verbatim>\<open>delete\<close>
  empties one, and reading an empty cell or an address outside the heap has no
  defined result.
\<close>

type_synonym node_pointer = "nat option"

record ('k, 'v) TreeNode =
  val :: "'k \<times> 'v"
  parent :: node_pointer
  leftChild :: node_pointer
  rightChild :: node_pointer
  height :: int

type_synonym ('k, 'v) heap = "('k, 'v) TreeNode option list"

record TreeMap =
  root :: node_pointer
  TreeMap_size :: size_type

definition get :: "('k, 'v) heap \<Rightarrow> nat \<Rightarrow> ('k, 'v) TreeNode option" where
  "get h a = (if a < length h then h ! a else None)"

definition key :: "('k, 'v) TreeNode \<Rightarrow> 'k" where
  "key n = fst (val n)"

definition new_TreeNode :: "'k \<times> 'v \<Rightarrow> node_pointer \<Rightarrow> ('k, 'v) TreeNode" where
  "new_TreeNode v p = \<lparr>val = v, parent = p, leftChild = None, rightChild = None, height = 0\<rparr>"

definition delete :: "('k, 'v) heap \<Rightarrow> nat \<Rightarrow> ('k, 'v) heap option" where
  "delete h a = (case get h a of None \<Rightarrow> None | Some n \<Rightarrow> Some (h[a := None]))"

text \<open>
  A \<^verbatim>\<open>node_pointer *\<close> points at the \<^verbatim>\<open>root\<close> field of the map or at a child
  field of a node.
\<close>

datatype slot = root_slot | leftChild_slot nat | rightChild_slot nat

fun read_slot :: "('k, 'v) heap \<Rightarrow> TreeMap \<Rightarrow> slot \<Rightarrow> node_pointer option" where
  "read_slot h m root_slot = Some (root m)"
| "read_slot h m (leftChild_slot a) = map_option leftChild (get h a)"
| "read_slot h m (rightChild_slot a) = map_option rightChild (get h a)"

fun write_slot ::
  "('k, 'v) heap \<Rightarrow> TreeMap \<Rightarrow> slot \<Rightarrow> node_pointer \<Rightarrow> (('k, 'v) heap \<times> TreeMap) option" where
  "write_slot h m root_slot p = Some (h, m\<lparr>root := p\<rparr>)"
| "write_slot h m (leftChild_slot a) p =
     (case get h a of None \<Rightarrow> None | Some n \<Rightarrow> Some (h[a := Some (n\<lparr>leftChild := p\<rparr>)], m))"
| "write_slot h m (rightChild_slot a) p =
     (case get h a of None \<Rightarrow> None | Some n \<Rightarrow> Some (h[a := Some (n\<lparr>rightChild := p\<rparr>)], m))"

text \<open>A \<^verbatim>\<open>mapped_type &\<close> into a tree map is the address of the node holding the value.\<close>

definition TreeMap_ref_get :: "('k, 'v) heap \<Rightarrow> nat \<Rightarrow> 'v option" where
  "TreeMap_ref_get h a = map_option (\<lambda>n. snd (val n)) (get h a)"

definition TreeMap_ref_set :: "('k, 'v) heap \<Rightarrow> nat \<Rightarrow> 'v \<Rightarrow> ('k, 'v) heap option" where
  "TreeMap_ref_set h a v =
     (case get h a of None \<Rightarrow> None | Some n \<Rightarrow> Some (h[a := Some (n\<lparr>val := (fst (val n), v)\<rparr>)]))"

text \<open>The iterator's reference to its map is passed to each operation.\<close>

record TreeMap_ConstIterator =
  currentNode :: node_pointer

subsection \<open>Lookup and insertion\<close>

definition TreeMap_empty :: TreeMap where
  "TreeMap_empty = \<lparr>root = None, TreeMap_size = 0\<rparr>"

definition TreeMap_getSize :: "TreeMap \<Rightarrow> size_type" where
  "TreeMap_getSize m = TreeMap_size m"

definition TreeMap_isEmpty :: "TreeMap \<Rightarrow> bool" where
  "TreeMap_isEmpty m = (TreeMap_getSize m = 0)"

partial_function (option) findNode_loop ::
  "('k::linorder, 'v) heap \<Rightarrow> 'k \<Rightarrow> node_pointer \<Rightarrow> node_pointer option" where
  "findNode_loop h k currentNode' =
     (case currentNode' of
        None \<Rightarrow> Some None
      | Some a \<Rightarrow> do {
          n \<leftarrow> get h a;
          if key n = k then Some (Some a)
          else if key n > k then findNode_loop h k (leftChild n)
          else findNode_loop h k (rightChild n)
        })"

declare findNode_loop.simps [code]

definition TreeMap_findNode ::
  "('k::linorder, 'v) heap \<Rightarrow> TreeMap \<Rightarrow> 'k \<Rightarrow> node_pointer option" where
  "TreeMap_findNode h m k = findNode_loop h k (root m)"

definition TreeMap_find ::
  "('k::linorder, 'v) heap \<Rightarrow> TreeMap \<Rightarrow> 'k \<Rightarrow> TreeMap_ConstIterator option" where
  "TreeMap_find h m k = map_option (\<lambda>p. \<lparr>currentNode = p\<rparr>) (TreeMap_findNode h m k)"

text \<open>The loop of \<^verbatim>\<open>operator[]\<close>; its state is \<^verbatim>\<open>node\<close> and \<^verbatim>\<open>parent\<close>.\<close>

partial_function (option) subscript_loop ::
  "('k::linorder, 'v) heap \<Rightarrow> TreeMap \<Rightarrow> 'k \<Rightarrow> slot \<Rightarrow> node_pointer
     \<Rightarrow> (slot \<times> node_pointer) option" where
  "subscript_loop h m k node par =
     do {
       p \<leftarrow> read_slot h m node;
       case p of
         None \<Rightarrow> Some (node, par)
       | Some a \<Rightarrow> do {
           n \<leftarrow> get h a;
           if key n = k then Some (node, par)
           else if key n > k then subscript_loop h m k (leftChild_slot a) (Some a)
           else subscript_loop h m k (rightChild_slot a) (Some a)
         }
     }"

declare subscript_loop.simps [code]

definition TreeMap_operator_subscript ::
  "'v \<Rightarrow> ('k::linorder, 'v) heap \<Rightarrow> TreeMap \<Rightarrow> 'k \<Rightarrow> (nat \<times> ('k, 'v) heap \<times> TreeMap) option" where
  "TreeMap_operator_subscript dflt h m k =
     (if root m = None
      then Some (length h, h @ [Some (new_TreeNode (k, dflt) None)],
                 m\<lparr>root := Some (length h), TreeMap_size := TreeMap_size m + 1\<rparr>)
      else do {
        (node, par) \<leftarrow> subscript_loop h m k root_slot None;
        p \<leftarrow> read_slot h m node;
        case p of
          Some a \<Rightarrow> Some (a, h, m)
        | None \<Rightarrow> do {
            (h', m') \<leftarrow> write_slot (h @ [Some (new_TreeNode (k, dflt) par)]) m node
                          (Some (length h));
            Some (length h, h', m'\<lparr>TreeMap_size := TreeMap_size m' + 1\<rparr>)
          }
      })"

subsection \<open>Iterators\<close>

text \<open>\<^verbatim>\<open>while (element->leftChild != nullptr) element = element->leftChild;\<close>\<close>

partial_function (option) leftmost :: "('k, 'v) heap \<Rightarrow> nat \<Rightarrow> nat option" where
  "leftmost h a =
     do {
       n \<leftarrow> get h a;
       case leftChild n of None \<Rightarrow> Some a | Some l \<Rightarrow> leftmost h l
     }"

declare leftmost.simps [code]

partial_function (option) rightmost :: "('k, 'v) heap \<Rightarrow> nat \<Rightarrow> nat option" where
  "rightmost h a =
     do {
       n \<leftarrow> get h a;
       case rightChild n of None \<Rightarrow> Some a | Some r \<Rightarrow> rightmost h r
     }"

declare rightmost.simps [code]

definition TreeMap_minElement :: "('k, 'v) heap \<Rightarrow> TreeMap \<Rightarrow> node_pointer option" where
  "TreeMap_minElement h m =
     (case root m of None \<Rightarrow> Some None | Some a \<Rightarrow> map_option Some (leftmost h a))"

definition TreeMap_maxElement :: "('k, 'v) heap \<Rightarrow> TreeMap \<Rightarrow> node_pointer option" where
  "TreeMap_maxElement h m =
     (case root m of None \<Rightarrow> Some None | Some a \<Rightarrow> map_option Some (rightmost h a))"

definition TreeMap_begin :: "('k, 'v) heap \<Rightarrow> TreeMap \<Rightarrow> TreeMap_ConstIterator option" where
  "TreeMap_begin h m = map_option (\<lambda>p. \<lparr>currentNode = p\<rparr>) (TreeMap_minElement h m)"

definition TreeMap_end :: TreeMap_ConstIterator where
  "TreeMap_end = \<lparr>currentNode = None\<rparr>"

definition TreeMap_ConstIterator_eq ::
  "TreeMap_ConstIterator \<Rightarrow> TreeMap_ConstIterator \<Rightarrow> bool" where
  "TreeMap_ConstIterator_eq a b = (currentNode a = currentNode b)"

text \<open>
  \<^verbatim>\<open>while (currentNode->parent != nullptr && currentNode->parent->rightChild == currentNode)
     currentNode = currentNode->parent;\<close>
\<close>

partial_function (option) climb_from_right :: "('k, 'v) heap \<Rightarrow> nat \<Rightarrow> nat option" where
  "climb_from_right h a =
     do {
       n \<leftarrow> get h a;
       case parent n of
         None \<Rightarrow> Some a
       | Some p \<Rightarrow> do {
           pn \<leftarrow> get h p;
           if rightChild pn = Some a then climb_from_right h p else Some a
         }
     }"

declare climb_from_right.simps [code]

partial_function (option) climb_from_left :: "('k, 'v) heap \<Rightarrow> nat \<Rightarrow> nat option" where
  "climb_from_left h a =
     do {
       n \<leftarrow> get h a;
       case parent n of
         None \<Rightarrow> Some a
       | Some p \<Rightarrow> do {
           pn \<leftarrow> get h p;
           if leftChild pn = Some a then climb_from_left h p else Some a
         }
     }"

declare climb_from_left.simps [code]

definition TreeMap_ConstIterator_incr ::
  "('k, 'v) heap \<Rightarrow> TreeMap_ConstIterator
     \<Rightarrow> ((error + unit) \<times> TreeMap_ConstIterator) option" where
  "TreeMap_ConstIterator_incr h it =
     (case currentNode it of
        None \<Rightarrow> Some (Inl (out_of_range ''Iterator out of range''), it)
      | Some a \<Rightarrow> do {
          n \<leftarrow> get h a;
          case rightChild n of
            Some r \<Rightarrow> do { c \<leftarrow> leftmost h r; Some (Inr (), it\<lparr>currentNode := Some c\<rparr>) }
          | None \<Rightarrow> do {
              c \<leftarrow> climb_from_right h a;
              cn \<leftarrow> get h c;
              Some (Inr (), it\<lparr>currentNode := parent cn\<rparr>)
            }
        })"

definition TreeMap_ConstIterator_decr ::
  "('k, 'v) heap \<Rightarrow> TreeMap \<Rightarrow> TreeMap_ConstIterator
     \<Rightarrow> ((error + unit) \<times> TreeMap_ConstIterator) option" where
  "TreeMap_ConstIterator_decr h m it =
     (if TreeMap_isEmpty m then Some (Inl (out_of_range ''Iterator out of range''), it)
      else case currentNode it of
        None \<Rightarrow> do { c \<leftarrow> TreeMap_maxElement h m; Some (Inr (), it\<lparr>currentNode := c\<rparr>) }
      | Some a \<Rightarrow> do {
          n \<leftarrow> get h a;
          case leftChild n of
            Some l \<Rightarrow> do { c \<leftarrow> rightmost h l; Some (Inr (), it\<lparr>currentNode := Some c\<rparr>) }
          | None \<Rightarrow> do {
              c \<leftarrow> climb_from_left h a;
              cn \<leftarrow> get h c;
              if parent cn = None
              then Some (Inl (out_of_range ''Iterator out of range''), it\<lparr>currentNode := Some a\<rparr>)
              else Some (Inr (), it\<lparr>currentNode := parent cn\<rparr>)
            }
        })"

definition TreeMap_ConstIterator_deref ::
  "('k, 'v) heap \<Rightarrow> TreeMap_ConstIterator \<Rightarrow> (error + nat) option" where
  "TreeMap_ConstIterator_deref h it =
     (case currentNode it of
        None \<Rightarrow> Some (Inl (out_of_range ''Iterator out of range''))
      | Some a \<Rightarrow> (case get h a of None \<Rightarrow> None | Some n \<Rightarrow> Some (Inr a)))"


subsection \<open>valueOf and removal\<close>

definition TreeMap_valueOf ::
  "('k::linorder, 'v) heap \<Rightarrow> TreeMap \<Rightarrow> 'k
     \<Rightarrow> ((error + nat) \<times> ('k, 'v) heap \<times> TreeMap) option" where
  "TreeMap_valueOf h m k =
     do {
       it \<leftarrow> TreeMap_find h m k;
       d \<leftarrow> TreeMap_ConstIterator_deref h it;
       Some (d, h, m)
     }"

definition TreeMap_remove ::
  "('k, 'v) heap \<Rightarrow> TreeMap \<Rightarrow> TreeMap_ConstIterator
     \<Rightarrow> ((error + unit) \<times> ('k, 'v) heap \<times> TreeMap) option" where
  "TreeMap_remove h m it =
     (if TreeMap_ConstIterator_eq it TreeMap_end
      then Some (Inl (out_of_range ''Iterator out of range''), h, m)
      else do {
        nodeToDelete \<leftarrow> currentNode it;
        n \<leftarrow> get h nodeToDelete;
        nodeToDeleteParentPtr \<leftarrow>
          (case parent n of
             None \<Rightarrow> Some root_slot
           | Some p \<Rightarrow> do {
               pn \<leftarrow> get h p;
               Some (if leftChild pn = Some nodeToDelete
                     then leftChild_slot p else rightChild_slot p)
             });
        (h', m') \<leftarrow>
          (if leftChild n = None \<and> rightChild n = None
           then write_slot h m nodeToDeleteParentPtr None
           else do {
             branch \<leftarrow> (if rightChild n = None then leftChild n else rightChild n);
             bn \<leftarrow> get h branch;
             write_slot (h[branch := Some (bn\<lparr>parent := parent n\<rparr>)]) m
               nodeToDeleteParentPtr (Some branch)
           });
        h'' \<leftarrow> delete h' nodeToDelete;
        Some (Inr (), h'', m'\<lparr>TreeMap_size := TreeMap_size m' - 1\<rparr>)
      })"

definition TreeMap_remove_key ::
  "('k::linorder, 'v) heap \<Rightarrow> TreeMap \<Rightarrow> 'k
     \<Rightarrow> ((error + unit) \<times> ('k, 'v) heap \<times> TreeMap) option" where
  "TreeMap_remove_key h m k = do { it \<leftarrow> TreeMap_find h m k; TreeMap_remove h m it }"

subsection \<open>Equality, copying and moving\<close>

text \<open>The range-for loop of \<^verbatim>\<open>operator==\<close> over \<open>other\<close>, from the iterator \<open>it\<close>.\<close>

partial_function (option) operator_eq_loop ::
  "('k::linorder, 'v) heap \<Rightarrow> TreeMap \<Rightarrow> TreeMap_ConstIterator \<Rightarrow> (error + bool) option" where
  "operator_eq_loop h this it =
     (if TreeMap_ConstIterator_eq it TreeMap_end then Some (Inr True)
      else do {
        d \<leftarrow> TreeMap_ConstIterator_deref h it;
        case d of
          Inl e \<Rightarrow> Some (Inl e)
        | Inr a \<Rightarrow> do {
            n \<leftarrow> get h a;
            r \<leftarrow> TreeMap_valueOf h this (fst (val n));
            case fst r of
              Inl e \<Rightarrow> Some (Inl e)
            | Inr b \<Rightarrow> do {
                v \<leftarrow> TreeMap_ref_get h b;
                if v \<noteq> snd (val n) then Some (Inr False)
                else do {
                  s \<leftarrow> TreeMap_ConstIterator_incr h it;
                  case fst s of
                    Inl e \<Rightarrow> Some (Inl e)
                  | Inr u \<Rightarrow> operator_eq_loop h this (snd s)
                }
              }
          }
      })"

declare operator_eq_loop.simps [code]

definition TreeMap_operator_eq ::
  "('k::linorder, 'v) heap \<Rightarrow> TreeMap \<Rightarrow> TreeMap \<Rightarrow> (error + bool) option" where
  "TreeMap_operator_eq h this other =
     (if TreeMap_size this \<noteq> TreeMap_size other then Some (Inr False)
      else do { b \<leftarrow> TreeMap_begin h other; operator_eq_loop h this b })"

text \<open>The statement \<^verbatim>\<open>this->operator[](v.first) = v.second\<close>.\<close>

definition TreeMap_put ::
  "'v \<Rightarrow> ('k::linorder, 'v) heap \<Rightarrow> TreeMap \<Rightarrow> 'k \<times> 'v \<Rightarrow> (('k, 'v) heap \<times> TreeMap) option" where
  "TreeMap_put dflt h m v =
     do {
       (a, h', m') \<leftarrow> TreeMap_operator_subscript dflt h m (fst v);
       h'' \<leftarrow> TreeMap_ref_set h' a (snd v);
       Some (h'', m')
     }"

text \<open>\<^verbatim>\<open>TreeMap(std::initializer_list<value_type> list)\<close>\<close>

fun TreeMap_put_all ::
  "'v \<Rightarrow> ('k::linorder, 'v) heap \<Rightarrow> TreeMap \<Rightarrow> ('k \<times> 'v) list
     \<Rightarrow> (('k, 'v) heap \<times> TreeMap) option" where
  "TreeMap_put_all dflt h m [] = Some (h, m)"
| "TreeMap_put_all dflt h m (v # vs) =
     do { (h', m') \<leftarrow> TreeMap_put dflt h m v; TreeMap_put_all dflt h' m' vs }"

definition TreeMap_of_list ::
  "'v \<Rightarrow> ('k::linorder, 'v) heap \<Rightarrow> ('k \<times> 'v) list \<Rightarrow> (('k, 'v) heap \<times> TreeMap) option" where
  "TreeMap_of_list dflt h vs = TreeMap_put_all dflt h TreeMap_empty vs"

text \<open>The loop of \<^verbatim>\<open>clear()\<close>.\<close>

partial_function (option) clear_loop ::
  "('k, 'v) heap \<Rightarrow> TreeMap_ConstIterator \<Rightarrow> ((error + unit) \<times> ('k, 'v) heap) option" where
  "clear_loop h it =
     (if \<not> TreeMap_ConstIterator_eq it TreeMap_end
      then do {
        node \<leftarrow> currentNode it;
        s \<leftarrow> TreeMap_ConstIterator_incr h it;
        case fst s of
          Inl e \<Rightarrow> Some (Inl e, h)
        | Inr u \<Rightarrow> do { h' \<leftarrow> delete h node; clear_loop h' (snd s) }
      }
      else Some (Inr (), h))"

declare clear_loop.simps [code]

definition TreeMap_clear ::
  "('k, 'v) heap \<Rightarrow> TreeMap \<Rightarrow> ((error + unit) \<times> ('k, 'v) heap \<times> TreeMap) option" where
  "TreeMap_clear h m =
     do {
       it \<leftarrow> TreeMap_begin h m;
       r \<leftarrow> clear_loop h it;
       case fst r of
         Inl e \<Rightarrow> Some (Inl e, snd r, m)
       | Inr u \<Rightarrow> Some (Inr (), snd r, m\<lparr>root := None, TreeMap_size := 0\<rparr>)
     }"

text \<open>\<^verbatim>\<open>std::for_each(other.begin(), other.end(), f)\<close> in \<^verbatim>\<open>fill\<close>, from the
  iterator \<open>first\<close> over \<open>other\<close>.\<close>

partial_function (option) fill_loop ::
  "'v \<Rightarrow> ('k::linorder, 'v) heap \<Rightarrow> TreeMap \<Rightarrow> TreeMap_ConstIterator
     \<Rightarrow> ((error + unit) \<times> ('k, 'v) heap \<times> TreeMap) option" where
  "fill_loop dflt h this first =
     (if TreeMap_ConstIterator_eq first TreeMap_end then Some (Inr (), h, this)
      else do {
        d \<leftarrow> TreeMap_ConstIterator_deref h first;
        case d of
          Inl e \<Rightarrow> Some (Inl e, h, this)
        | Inr a \<Rightarrow> do {
            n \<leftarrow> get h a;
            hm \<leftarrow> TreeMap_put dflt h this (val n);
            s \<leftarrow> TreeMap_ConstIterator_incr (fst hm) first;
            case fst s of
              Inl e \<Rightarrow> Some (Inl e, hm)
            | Inr u \<Rightarrow> fill_loop dflt (fst hm) (snd hm) (snd s)
          }
      })"

declare fill_loop.simps [code]

definition TreeMap_fill ::
  "'v \<Rightarrow> ('k::linorder, 'v) heap \<Rightarrow> TreeMap \<Rightarrow> TreeMap
     \<Rightarrow> ((error + unit) \<times> ('k, 'v) heap \<times> TreeMap) option" where
  "TreeMap_fill dflt h this other =
     do { b \<leftarrow> TreeMap_begin h other; fill_loop dflt h this b }"

text \<open>\<^verbatim>\<open>TreeMap(const TreeMap &other)\<close>\<close>

definition TreeMap_copy ::
  "'v \<Rightarrow> ('k::linorder, 'v) heap \<Rightarrow> TreeMap
     \<Rightarrow> ((error + unit) \<times> ('k, 'v) heap \<times> TreeMap) option" where
  "TreeMap_copy dflt h other = TreeMap_fill dflt h TreeMap_empty other"

text \<open>\<^verbatim>\<open>TreeMap(TreeMap &&other)\<close>: the new map and what is left of \<open>other\<close>.\<close>

definition TreeMap_move :: "TreeMap \<Rightarrow> TreeMap \<times> TreeMap" where
  "TreeMap_move other =
     (\<lparr>root = root other, TreeMap_size = TreeMap_size other\<rparr>, other\<lparr>root := None\<rparr>)"

definition TreeMap_copy_assign ::
  "'v \<Rightarrow> ('k::linorder, 'v) heap \<Rightarrow> TreeMap store \<Rightarrow> nat \<Rightarrow> nat
     \<Rightarrow> ((error + unit) \<times> ('k, 'v) heap \<times> TreeMap store) option" where
  "TreeMap_copy_assign dflt h s this other =
     (if this = other then Some (Inr (), h, s)
      else do {
        (c, h', m') \<leftarrow> TreeMap_clear h (s this);
        case c of
          Inl e \<Rightarrow> Some (Inl e, h', s(this := m'))
        | Inr u \<Rightarrow> do {
            (r, h'', m'') \<leftarrow> TreeMap_fill dflt h' m' (s other);
            Some (r, h'', s(this := m''))
          }
      })"

definition TreeMap_move_assign ::
  "('k, 'v) heap \<Rightarrow> TreeMap store \<Rightarrow> nat \<Rightarrow> nat
     \<Rightarrow> ((error + unit) \<times> ('k, 'v) heap \<times> TreeMap store) option" where
  "TreeMap_move_assign h s this other =
     (if this = other then Some (Inr (), h, s)
      else do {
        (c, h', m') \<leftarrow> TreeMap_clear h (s this);
        case c of
          Inl e \<Rightarrow> Some (Inl e, h', s(this := m'))
        | Inr u \<Rightarrow>
            Some (Inr (), h',
                  s(this := m'\<lparr>root := root (s other), TreeMap_size := TreeMap_size (s other)\<rparr>,
                    other := (s other)\<lparr>root := None\<rparr>))
      })"

text \<open>Forward iteration from \<open>it\<close> to \<^verbatim>\<open>end()\<close>, collecting the pairs visited:
  \<^verbatim>\<open>for (; it != end(); ++it) out.push_back(*it);\<close>\<close>

partial_function (option) iterate_loop ::
  "('k, 'v) heap \<Rightarrow> TreeMap_ConstIterator \<Rightarrow> (error + ('k \<times> 'v) list) option" where
  "iterate_loop h it =
     (if TreeMap_ConstIterator_eq it TreeMap_end then Some (Inr [])
      else do {
        d \<leftarrow> TreeMap_ConstIterator_deref h it;
        case d of
          Inl e \<Rightarrow> Some (Inl e)
        | Inr a \<Rightarrow> do {
            n \<leftarrow> get h a;
            s \<leftarrow> TreeMap_ConstIterator_incr h it;
            case fst s of
              Inl e \<Rightarrow> Some (Inl e)
            | Inr u \<Rightarrow> do {
                r \<leftarrow> iterate_loop h (snd s);
                case r of
                  Inl e \<Rightarrow> Some (Inl e)
                | Inr xs \<Rightarrow> Some (Inr (val n # xs))
              }
          }
      })"

declare iterate_loop.simps [code]

definition TreeMap_iterate :: "('k, 'v) heap \<Rightarrow> TreeMap \<Rightarrow> (error + ('k \<times> 'v) list) option" where
  "TreeMap_iterate h m = do { b \<leftarrow> TreeMap_begin h m; iterate_loop h b }"


section \<open>Abstract view of the two containers\<close>

subsection \<open>The tree a heap holds\<close>

text \<open>
  A tree with the address of each node.  \<open>rep h par p t\<close>: in the heap \<open>h\<close> the
  pointer \<open>p\<close> leads to the tree \<open>t\<close>, whose root has the parent pointer \<open>par\<close>;
  every node stores its pair, and every child points back to its parent.
\<close>

datatype ('k, 'v) tree = Leaf | Node "('k, 'v) tree" nat 'k 'v "('k, 'v) tree"

fun rep :: "('k, 'v) heap \<Rightarrow> node_pointer \<Rightarrow> node_pointer \<Rightarrow> ('k, 'v) tree \<Rightarrow> bool" where
  "rep h par p Leaf = (p = None)"
| "rep h par p (Node l a k v r) =
     (p = Some a \<and>
      (case get h a of
         None \<Rightarrow> False
       | Some n \<Rightarrow> val n = (k, v) \<and> parent n = par
                   \<and> rep h (Some a) (leftChild n) l \<and> rep h (Some a) (rightChild n) r))"

fun addrs :: "('k, 'v) tree \<Rightarrow> nat list" where
  "addrs Leaf = []"
| "addrs (Node l a k v r) = addrs l @ a # addrs r"

fun inorder :: "('k, 'v) tree \<Rightarrow> ('k \<times> 'v) list" where
  "inorder Leaf = []"
| "inorder (Node l a k v r) = inorder l @ (k, v) # inorder r"

definition keys :: "('k, 'v) tree \<Rightarrow> 'k set" where
  "keys t = fst ` set (inorder t)"

definition entries :: "('k, 'v) tree \<Rightarrow> 'k \<rightharpoonup> 'v" where
  "entries t = map_of (inorder t)"

text \<open>The search-tree order: smaller keys to the left, greater keys to the right.\<close>

fun bst :: "('k::linorder, 'v) tree \<Rightarrow> bool" where
  "bst Leaf = True"
| "bst (Node l a k v r) =
     (bst l \<and> bst r \<and> (\<forall>x \<in> keys l. x < k) \<and> (\<forall>x \<in> keys r. k < x))"

text \<open>Insertion of the key \<open>x\<close> with the value \<open>d\<close> in a new node at address \<open>b\<close>.\<close>

fun ins :: "nat \<Rightarrow> 'k::linorder \<Rightarrow> 'v \<Rightarrow> ('k, 'v) tree \<Rightarrow> ('k, 'v) tree" where
  "ins b x d Leaf = Node Leaf b x d Leaf"
| "ins b x d (Node l a k v r) =
     (if k = x then Node l a k v r
      else if k > x then Node (ins b x d l) a k v r
      else Node l a k v (ins b x d r))"

text \<open>The address at which the descent of \<^verbatim>\<open>findNode\<close> finds the key.\<close>

fun lookup_addr :: "('k::linorder, 'v) tree \<Rightarrow> 'k \<Rightarrow> node_pointer" where
  "lookup_addr Leaf x = None"
| "lookup_addr (Node l a k v r) x =
     (if k = x then Some a else if k > x then lookup_addr l x else lookup_addr r x)"

text \<open>Replacing the value stored at the address \<open>b\<close>.\<close>

fun set_value :: "nat \<Rightarrow> 'v \<Rightarrow> ('k, 'v) tree \<Rightarrow> ('k, 'v) tree" where
  "set_value b w Leaf = Leaf"
| "set_value b w (Node l a k v r) =
     Node (set_value b w l) a k (if a = b then w else v) (set_value b w r)"

subsection \<open>The entries a hash map holds\<close>

text \<open>
  The invariant of the bucket table: \<open>MAP_SIZE\<close> buckets, every pair in the bucket its
  key hashes to, no key twice in a bucket.
\<close>

definition HashMap_inv :: "('k, 'v) targs \<Rightarrow> ('k, 'v) HashMap \<Rightarrow> bool" where
  "HashMap_inv T m =
     (length (buckets m) = MAP_SIZE
      \<and> (\<forall>i < MAP_SIZE. (\<forall>v \<in> set (buckets m ! i). HashMap_findBucket T (fst v) = i)
                          \<and> distinct (map fst (buckets m ! i))))"

definition HashMap_entries :: "('k, 'v) HashMap \<Rightarrow> 'k \<rightharpoonup> 'v" where
  "HashMap_entries m = map_of (concat (buckets m))"

subsection \<open>Auxiliary functions of the proofs\<close>

text \<open>
  \<open>descend\<close>: where the loop of \<^verbatim>\<open>operator[]\<close> stops in a tree.
  \<open>exit_ptr\<close>: where \<^verbatim>\<open>operator++\<close> goes from a node without right child.
  \<open>prepend\<close>: a list put in front of the result of an iteration.
\<close>

fun descend :: "'k::linorder \<Rightarrow> slot \<Rightarrow> node_pointer \<Rightarrow> ('k, 'v) tree \<Rightarrow> slot \<times> node_pointer" where
  "descend x sl par Leaf = (sl, par)"
| "descend x sl par (Node l a k v r) =
     (if k = x then (sl, par)
      else if k > x then descend x (leftChild_slot a) (Some a) l
      else descend x (rightChild_slot a) (Some a) r)"

definition exit_ptr :: "('k, 'v) heap \<Rightarrow> nat \<Rightarrow> node_pointer option" where
  "exit_ptr h a = do { c \<leftarrow> climb_from_right h a; cn \<leftarrow> get h c; Some (parent cn) }"

fun prepend :: "'a list \<Rightarrow> error + 'a list \<Rightarrow> error + 'a list" where
  "prepend xs (Inl e) = Inl e"
| "prepend xs (Inr ys) = Inr (xs @ ys)"

text \<open>
  What \<^verbatim>\<open>remove\<close> makes of a tree when it removes the node at the address \<open>a\<close>: the
  right subtree of the node takes its place, or the left one when there is no right one.
  \<open>dropped a t\<close> are the keys that go with the node: those of its left subtree when the
  node has a right subtree too.
\<close>

fun del :: "nat \<Rightarrow> ('k, 'v) tree \<Rightarrow> ('k, 'v) tree" where
  "del a Leaf = Leaf"
| "del a (Node l b k v r) =
     (if a = b then (if r = Leaf then l else r) else Node (del a l) b k v (del a r))"

fun dropped :: "nat \<Rightarrow> ('k, 'v) tree \<Rightarrow> 'k set" where
  "dropped a Leaf = {}"
| "dropped a (Node l b k v r) =
     (if a = b then (if r = Leaf then {} else keys l) else dropped a l \<union> dropped a r)"

section \<open>Properties\<close>

subsection \<open>The heap and the tree it holds\<close>

lemma get_append_old [simp]: "a < length h \<Longrightarrow> get (h @ xs) a = get h a"
  by (simp add: get_def nth_append)

lemma get_append_new [simp]: "get (h @ [x]) (length h) = x"
  by (simp add: get_def)

lemma get_Some_less: "get h a = Some n \<Longrightarrow> a < length h"
  by (auto simp: get_def split: if_splits)

lemma get_update: "get (h[b := x]) a = (if a = b \<and> b < length h then x else get h a)"
  by (auto simp: get_def)

lemma rep_NodeE:
  assumes "rep h par p (Node l a k v r)"
  obtains n where "get h a = Some n" "p = Some a" "val n = (k, v)" "parent n = par"
    "rep h (Some a) (leftChild n) l" "rep h (Some a) (rightChild n) r"
  using assms by (auto split: option.splits)

lemma rep_Some_Node: "rep h par (Some a) t \<Longrightarrow> \<exists>l k v r. t = Node l a k v r"
  by (cases t) auto

lemma rep_None_Leaf: "rep h par None t \<Longrightarrow> t = Leaf"
  by (cases t) auto

lemma rep_frame:
  "rep h par p t \<Longrightarrow> (\<And>a. a \<in> set (addrs t) \<Longrightarrow> get h' a = get h a) \<Longrightarrow> rep h' par p t"
proof (induction t arbitrary: par p)
  case Leaf
  then show ?case by simp
next
  case (Node l a k v r)
  from Node.prems(1) obtain n where n: "get h a = Some n" "p = Some a" "val n = (k, v)"
    "parent n = par" "rep h (Some a) (leftChild n) l" "rep h (Some a) (rightChild n) r"
    by (rule rep_NodeE)
  have "get h' a = Some n" using Node.prems(2)[of a] n by simp
  moreover have "rep h' (Some a) (leftChild n) l"
    using Node.IH(1)[OF n(5)] Node.prems(2) by simp
  moreover have "rep h' (Some a) (rightChild n) r"
    using Node.IH(2)[OF n(6)] Node.prems(2) by simp
  ultimately show ?case using n by simp
qed

lemma rep_node_key:
  "rep h par p t \<Longrightarrow> a \<in> set (addrs t) \<Longrightarrow> \<exists>n. get h a = Some n \<and> fst (val n) \<in> keys t"
proof (induction t arbitrary: par p)
  case Leaf
  then show ?case by simp
next
  case (Node l b k v r)
  from Node.prems(1) obtain n where n: "get h b = Some n" "p = Some b" "val n = (k, v)"
    "parent n = par" "rep h (Some b) (leftChild n) l" "rep h (Some b) (rightChild n) r"
    by (rule rep_NodeE)
  from Node.prems(2) consider "a \<in> set (addrs l)" | "a = b" | "a \<in> set (addrs r)" by auto
  then show ?case
  proof cases
    case 1
    from Node.IH(1)[OF n(5) 1] show ?thesis by (auto simp: keys_def)
  next
    case 2
    then show ?thesis using n by (auto simp: keys_def)
  next
    case 3
    from Node.IH(2)[OF n(6) 3] show ?thesis by (auto simp: keys_def)
  qed
qed

lemma rep_addr_less: "rep h par p t \<Longrightarrow> a \<in> set (addrs t) \<Longrightarrow> a < length h"
  using rep_node_key get_Some_less by blast

text \<open>In a search tree the addresses of the two subtrees and of the root are apart.\<close>

lemma bst_addrs_apart:
  assumes "rep h par p (Node l a k v r)" "bst (Node l a k v r)"
  shows "a \<notin> set (addrs l)" "a \<notin> set (addrs r)" "set (addrs l) \<inter> set (addrs r) = {}"
proof -
  from assms(1) obtain n where n: "get h a = Some n" "val n = (k, v)"
    "rep h (Some a) (leftChild n) l" "rep h (Some a) (rightChild n) r"
    by (rule rep_NodeE)
  have L: "\<And>b. b \<in> set (addrs l) \<Longrightarrow> \<exists>nb. get h b = Some nb \<and> fst (val nb) < k"
    using rep_node_key[OF n(3)] assms(2) by fastforce
  have R: "\<And>b. b \<in> set (addrs r) \<Longrightarrow> \<exists>nb. get h b = Some nb \<and> k < fst (val nb)"
    using rep_node_key[OF n(4)] assms(2) by fastforce
  show "a \<notin> set (addrs l)" using L n by fastforce
  show "a \<notin> set (addrs r)" using R n by fastforce
  show "set (addrs l) \<inter> set (addrs r) = {}" using L R by fastforce
qed

lemma findNode_loop_rep:
  "rep h par p t \<Longrightarrow> findNode_loop h x p = Some (lookup_addr t x)"
proof (induction t arbitrary: par p)
  case Leaf
  then show ?case by (simp add: findNode_loop.simps)
next
  case (Node l a k v r)
  from Node.prems(1) obtain n where n: "get h a = Some n" "p = Some a" "val n = (k, v)"
    "parent n = par" "rep h (Some a) (leftChild n) l" "rep h (Some a) (rightChild n) r"
    by (rule rep_NodeE)
  show ?case
    using n Node.IH(1)[OF n(5)] Node.IH(2)[OF n(6)]
    by (subst findNode_loop.simps) (simp add: key_def)
qed

lemma lookup_addr_absent: "x \<notin> keys t \<Longrightarrow> lookup_addr t x = None"
  by (induction t) (auto simp: keys_def)

lemma lookup_addr_present:
  "bst t \<Longrightarrow> x \<in> keys t \<Longrightarrow> \<exists>a. lookup_addr t x = Some a \<and> a \<in> set (addrs t)"
  by (induction t) (auto simp: keys_def)

lemma subscript_loop_rep:
  "rep h par p t \<Longrightarrow> read_slot h m sl = Some p \<Longrightarrow>
     subscript_loop h m x sl par = Some (descend x sl par t)"
proof (induction t arbitrary: par p sl)
  case Leaf
  then show ?case by (subst subscript_loop.simps) simp
next
  case (Node l a k v r)
  from Node.prems(1) obtain n where n: "get h a = Some n" "p = Some a" "val n = (k, v)"
    "parent n = par" "rep h (Some a) (leftChild n) l" "rep h (Some a) (rightChild n) r"
    by (rule rep_NodeE)
  have L: "subscript_loop h m x (leftChild_slot a) (Some a) = Some (descend x (leftChild_slot a) (Some a) l)"
    by (rule Node.IH(1)[OF n(5)]) (simp add: n)
  have R: "subscript_loop h m x (rightChild_slot a) (Some a) = Some (descend x (rightChild_slot a) (Some a) r)"
    by (rule Node.IH(2)[OF n(6)]) (simp add: n)
  show ?case
    using n Node.prems(2) L R
    by (subst subscript_loop.simps) (simp add: key_def)
qed

lemma read_descend:
  "rep h par p t \<Longrightarrow> read_slot h m sl = Some p \<Longrightarrow>
     read_slot h m (fst (descend x sl par t)) = Some (lookup_addr t x)"
proof (induction t arbitrary: par p sl)
  case Leaf
  then show ?case by simp
next
  case (Node l a k v r)
  from Node.prems(1) obtain n where n: "get h a = Some n" "p = Some a" "val n = (k, v)"
    "parent n = par" "rep h (Some a) (leftChild n) l" "rep h (Some a) (rightChild n) r"
    by (rule rep_NodeE)
  have L: "read_slot h m (fst (descend x (leftChild_slot a) (Some a) l)) = Some (lookup_addr l x)"
    by (rule Node.IH(1)[OF n(5)]) (simp add: n)
  have R: "read_slot h m (fst (descend x (rightChild_slot a) (Some a) r)) = Some (lookup_addr r x)"
    by (rule Node.IH(2)[OF n(6)]) (simp add: n)
  show ?case using n Node.prems(2) L R by simp
qed

lemma keys_Node [simp]: "keys (Node l a k v r) = insert k (keys l \<union> keys r)"
  by (auto simp: keys_def)

lemma keys_Leaf [simp]: "keys Leaf = {}"
  by (simp add: keys_def)

lemma ins_write:
  assumes "rep h par p t" "bst t" "x \<notin> keys t" "t \<noteq> Leaf"
  shows "\<exists>h'. write_slot (h @ [Some (new_TreeNode (x, d) (snd (descend x sl par t)))]) m
                 (fst (descend x sl par t)) (Some (length h)) = Some (h', m)
           \<and> rep h' par p (ins (length h) x d t)
           \<and> length h' = Suc (length h)
           \<and> (\<forall>b. b \<notin> set (addrs t) \<longrightarrow> b < length h \<longrightarrow> get h' b = get h b)"
  using assms
proof (induction t arbitrary: par p sl)
  case Leaf
  then show ?case by simp
next
  case (Node l a k v r)
  from Node.prems(1) obtain n where n: "get h a = Some n" "p = Some a" "val n = (k, v)"
    "parent n = par" "rep h (Some a) (leftChild n) l" "rep h (Some a) (rightChild n) r"
    by (rule rep_NodeE)
  note apart = bst_addrs_apart[OF Node.prems(1) Node.prems(2)]
  have al: "a < length h" using n(1) by (rule get_Some_less)
  have xk: "x \<noteq> k" "x \<notin> keys l" "x \<notin> keys r" using Node.prems(3) by auto
  have bl: "bst l" and br: "bst r" using Node.prems(2) by auto
  let ?new = "length h"
  show ?case
  proof (cases "x < k")
    case True
    show ?thesis
    proof (cases l)
      case Leaf
      let ?h1 = "h @ [Some (new_TreeNode (x, d) (Some a))]"
      let ?h' = "?h1[a := Some (n\<lparr>leftChild := Some ?new\<rparr>)]"
      have w: "write_slot ?h1 m (leftChild_slot a) (Some ?new) = Some (?h', m)"
        using n al by simp
      have ga: "get ?h' a = Some (n\<lparr>leftChild := Some ?new\<rparr>)"
        using al by (simp add: get_update)
      have gn: "get ?h' ?new = Some (new_TreeNode (x, d) (Some a))"
        using al by (simp add: get_update)
      have fr: "\<And>b. b \<noteq> a \<Longrightarrow> b < length h \<Longrightarrow> get ?h' b = get h b"
        by (simp add: get_update)
      have rr: "rep ?h' (Some a) (rightChild n) r"
        using n(6)
      proof (rule rep_frame)
        fix b assume b: "b \<in> set (addrs r)"
        then have "b \<noteq> a" using apart by auto
        moreover have "b < length h" using rep_addr_less[OF n(6) b] .
        ultimately show "get ?h' b = get h b" by (rule fr)
      qed
      have "rep ?h' par p (ins ?new x d (Node l a k v r))"
        using True xk Leaf n ga gn rr by (simp add: new_TreeNode_def)
      moreover have "\<forall>b. b \<notin> set (addrs (Node l a k v r)) \<longrightarrow> b < length h \<longrightarrow> get ?h' b = get h b"
        using fr by simp
      ultimately show ?thesis using w True xk Leaf by simp
    next
      case (Node l1 a1 k1 v1 r1)
      then have lne: "l \<noteq> Leaf" by simp
      from Node.IH(1)[OF n(5) bl xk(2) lne, of "leftChild_slot a"]
      obtain h' where h': "write_slot (h @ [Some (new_TreeNode (x, d) (snd (descend x (leftChild_slot a) (Some a) l)))]) m
                 (fst (descend x (leftChild_slot a) (Some a) l)) (Some (length h)) = Some (h', m)"
          "rep h' (Some a) (leftChild n) (ins (length h) x d l)"
          "length h' = Suc (length h)"
          "\<And>b. b \<notin> set (addrs l) \<Longrightarrow> b < length h \<Longrightarrow> get h' b = get h b"
        by blast
      have ga: "get h' a = Some n" using h'(4)[of a] apart al n by simp
      have rr: "rep h' (Some a) (rightChild n) r"
        using n(6)
      proof (rule rep_frame)
        fix b assume b: "b \<in> set (addrs r)"
        then have "b \<notin> set (addrs l)" using apart by auto
        moreover have "b < length h" using rep_addr_less[OF n(6) b] .
        ultimately show "get h' b = get h b" by (rule h'(4))
      qed
      have "rep h' par p (ins ?new x d (tree.Node l a k v r))"
        using True xk n ga h'(2) rr by simp
      moreover have "\<forall>b. b \<notin> set (addrs (tree.Node l a k v r)) \<longrightarrow> b < length h \<longrightarrow> get h' b = get h b"
        using h'(4) by simp
      ultimately show ?thesis using h'(1,3) True xk by simp
    qed
  next
    case False
    then have kx: "k < x" using xk by simp
    show ?thesis
    proof (cases r)
      case Leaf
      let ?h1 = "h @ [Some (new_TreeNode (x, d) (Some a))]"
      let ?h' = "?h1[a := Some (n\<lparr>rightChild := Some ?new\<rparr>)]"
      have w: "write_slot ?h1 m (rightChild_slot a) (Some ?new) = Some (?h', m)"
        using n al by simp
      have ga: "get ?h' a = Some (n\<lparr>rightChild := Some ?new\<rparr>)"
        using al by (simp add: get_update)
      have gn: "get ?h' ?new = Some (new_TreeNode (x, d) (Some a))"
        using al by (simp add: get_update)
      have fr: "\<And>b. b \<noteq> a \<Longrightarrow> b < length h \<Longrightarrow> get ?h' b = get h b"
        by (simp add: get_update)
      have rl: "rep ?h' (Some a) (leftChild n) l"
        using n(5)
      proof (rule rep_frame)
        fix b assume b: "b \<in> set (addrs l)"
        then have "b \<noteq> a" using apart by auto
        moreover have "b < length h" using rep_addr_less[OF n(5) b] .
        ultimately show "get ?h' b = get h b" by (rule fr)
      qed
      have "rep ?h' par p (ins ?new x d (Node l a k v r))"
        using False xk Leaf n ga gn rl by (simp add: new_TreeNode_def)
      moreover have "\<forall>b. b \<notin> set (addrs (Node l a k v r)) \<longrightarrow> b < length h \<longrightarrow> get ?h' b = get h b"
        using fr by simp
      ultimately show ?thesis using w False xk Leaf by simp
    next
      case (Node l1 a1 k1 v1 r1)
      then have rne: "r \<noteq> Leaf" by simp
      from Node.IH(2)[OF n(6) br xk(3) rne, of "rightChild_slot a"]
      obtain h' where h': "write_slot (h @ [Some (new_TreeNode (x, d) (snd (descend x (rightChild_slot a) (Some a) r)))]) m
                 (fst (descend x (rightChild_slot a) (Some a) r)) (Some (length h)) = Some (h', m)"
          "rep h' (Some a) (rightChild n) (ins (length h) x d r)"
          "length h' = Suc (length h)"
          "\<And>b. b \<notin> set (addrs r) \<Longrightarrow> b < length h \<Longrightarrow> get h' b = get h b"
        by blast
      have ga: "get h' a = Some n" using h'(4)[of a] apart al n by simp
      have rl: "rep h' (Some a) (leftChild n) l"
        using n(5)
      proof (rule rep_frame)
        fix b assume b: "b \<in> set (addrs l)"
        then have "b \<notin> set (addrs r)" using apart by auto
        moreover have "b < length h" using rep_addr_less[OF n(5) b] .
        ultimately show "get h' b = get h b" by (rule h'(4))
      qed
      have "rep h' par p (ins ?new x d (tree.Node l a k v r))"
        using False xk n ga h'(2) rl by simp
      moreover have "\<forall>b. b \<notin> set (addrs (tree.Node l a k v r)) \<longrightarrow> b < length h \<longrightarrow> get h' b = get h b"
        using h'(4) by simp
      ultimately show ?thesis using h'(1,3) False xk by simp
    qed
  qed
qed

lemma addrs_ins_Leaf: "t \<noteq> Leaf \<Longrightarrow> ins b x d t \<noteq> Leaf"
  by (cases t) auto

lemma keys_ins [simp]: "keys (ins b x d t) = insert x (keys t)"
  by (induction t) auto

lemma bst_ins: "bst t \<Longrightarrow> bst (ins b x d t)"
  by (induction t) auto

lemma subscript_present:
  assumes "rep h None (root m) t" "lookup_addr t x = Some a"
  shows "TreeMap_operator_subscript d h m x = Some (a, h, m)"
proof -
  from assms(2) have "t \<noteq> Leaf" by auto
  with assms(1) obtain r0 where rt: "root m = Some r0" by (cases t) auto
  have rs: "read_slot h m root_slot = Some (root m)" by simp
  obtain sl' par' where dp: "descend x root_slot None t = (sl', par')"
    by (cases "descend x root_slot None t")
  have "subscript_loop h m x root_slot None = Some (sl', par')"
    using subscript_loop_rep[OF assms(1) rs, of x] dp by simp
  moreover have "read_slot h m sl' = Some (Some a)"
    using read_descend[OF assms(1) rs, of x] assms(2) dp by simp
  ultimately show ?thesis
    using rt by (simp add: TreeMap_operator_subscript_def)
qed

lemma subscript_absent:
  assumes "rep h None (root m) t" "bst t" "x \<notin> keys t"
  shows "\<exists>h' m'. TreeMap_operator_subscript d h m x = Some (length h, h', m')
           \<and> rep h' None (root m') (ins (length h) x d t)
           \<and> TreeMap_size m' = TreeMap_size m + 1
           \<and> length h' = Suc (length h)
           \<and> (\<forall>b. b \<notin> set (addrs t) \<longrightarrow> b < length h \<longrightarrow> get h' b = get h b)"
proof (cases t)
  case Leaf
  with assms(1) have "root m = None" by simp
  then show ?thesis using Leaf
    by (simp add: TreeMap_operator_subscript_def new_TreeNode_def)
next
  case (Node l a k v r)
  then have ne: "t \<noteq> Leaf" by simp
  with assms(1) obtain r0 where rt: "root m = Some r0" by (cases t) auto
  have rs: "read_slot h m root_slot = Some (root m)" by simp
  obtain sl' par' where dp: "descend x root_slot None t = (sl', par')"
    by (cases "descend x root_slot None t")
  have lp: "subscript_loop h m x root_slot None = Some (sl', par')"
    using subscript_loop_rep[OF assms(1) rs, of x] dp by simp
  have rd: "read_slot h m sl' = Some None"
    using read_descend[OF assms(1) rs, of x] lookup_addr_absent[OF assms(3)] dp by simp
  from ins_write[OF assms(1) assms(2) assms(3) ne, of d root_slot m] dp
  obtain h' where h': "write_slot (h @ [Some (new_TreeNode (x, d) par')]) m sl' (Some (length h))
                         = Some (h', m)"
      "rep h' None (root m) (ins (length h) x d t)"
      "length h' = Suc (length h)"
      "\<forall>b. b \<notin> set (addrs t) \<longrightarrow> b < length h \<longrightarrow> get h' b = get h b"
    by auto
  have "TreeMap_operator_subscript d h m x
          = Some (length h, h', m\<lparr>TreeMap_size := TreeMap_size m + 1\<rparr>)"
    using rt lp rd h'(1) by (simp add: TreeMap_operator_subscript_def)
  then show ?thesis using h'(2,3,4) by simp
qed

lemma rep_set_value:
  "rep h par p t \<Longrightarrow> get h a = Some n \<Longrightarrow>
     rep (h[a := Some (n\<lparr>val := (fst (val n), w)\<rparr>)]) par p (set_value a w t)"
proof (induction t arbitrary: par p)
  case Leaf
  then show ?case by simp
next
  case (Node l b k v r)
  from Node.prems(1) obtain nb where nb: "get h b = Some nb" "p = Some b" "val nb = (k, v)"
    "parent nb = par" "rep h (Some b) (leftChild nb) l" "rep h (Some b) (rightChild nb) r"
    by (rule rep_NodeE)
  have al: "a < length h" using Node.prems(2) by (rule get_Some_less)
  show ?case
    using nb Node.prems(2) al Node.IH(1)[OF nb(5) Node.prems(2)] Node.IH(2)[OF nb(6) Node.prems(2)]
    by (auto simp: get_update)
qed

lemma keys_set_value [simp]: "keys (set_value a w t) = keys t"
  by (induction t) auto

lemma addrs_set_value [simp]: "addrs (set_value a w t) = addrs t"
  by (induction t) auto

lemma bst_set_value [simp]: "bst (set_value a w t) = bst t"
  by (induction t) auto

lemma lookup_addr_set_value [simp]: "lookup_addr (set_value a w t) x = lookup_addr t x"
  by (induction t) auto

lemma lookup_addr_ins_new:
  "x \<notin> keys t \<Longrightarrow> lookup_addr (ins b x d t) x = Some b"
  by (induction t) auto

lemma lookup_addr_ins_old:
  "lookup_addr t x = Some a \<Longrightarrow> ins b x d t = t"
  by (induction t) (auto split: if_splits)

lemma lookup_addr_in_addrs: "lookup_addr t x = Some a \<Longrightarrow> a \<in> set (addrs t)"
  by (induction t) (auto split: if_splits)

text \<open>The statement \<^verbatim>\<open>m[k] = w\<close> keeps the heap a search tree.\<close>

lemma put_rep:
  assumes "rep h None (root m) t" "bst t"
  shows "\<exists>h' m' t'. TreeMap_put d h m (x, w) = Some (h', m')
           \<and> rep h' None (root m') t' \<and> bst t' \<and> keys t' = insert x (keys t)
           \<and> length h \<le> length h'
           \<and> TreeMap_size m' = (if x \<in> keys t then TreeMap_size m else TreeMap_size m + 1)"
proof (cases "x \<in> keys t")
  case True
  from lookup_addr_present[OF assms(2) True] obtain a where a: "lookup_addr t x = Some a"
    "a \<in> set (addrs t)" by blast
  from rep_node_key[OF assms(1) a(2)] obtain n where n: "get h a = Some n" by blast
  have s: "TreeMap_operator_subscript d h m x = Some (a, h, m)"
    by (rule subscript_present[OF assms(1) a(1)])
  have "rep (h[a := Some (n\<lparr>val := (fst (val n), w)\<rparr>)]) None (root m) (set_value a w t)"
    by (rule rep_set_value[OF assms(1) n])
  then show ?thesis using s n True assms(2)
    by (auto simp: TreeMap_put_def TreeMap_ref_set_def intro!: exI[of _ "set_value a w t"])
next
  case False
  from subscript_absent[OF assms False, of d]
  obtain h' m' where h': "TreeMap_operator_subscript d h m x = Some (length h, h', m')"
      "rep h' None (root m') (ins (length h) x d t)"
      "TreeMap_size m' = TreeMap_size m + 1"
      "length h' = Suc (length h)"
    by blast
  have "length h \<in> set (addrs (ins (length h) x d t))"
    using lookup_addr_ins_new[OF False] lookup_addr_in_addrs by fast
  from rep_node_key[OF h'(2) this] obtain n where n: "get h' (length h) = Some n" by blast
  have "rep (h'[length h := Some (n\<lparr>val := (fst (val n), w)\<rparr>)]) None (root m')
           (set_value (length h) w (ins (length h) x d t))"
    by (rule rep_set_value[OF h'(2) n])
  then show ?thesis using h' n False assms(2)
    by (auto simp: TreeMap_put_def TreeMap_ref_set_def bst_ins
        intro!: exI[of _ "set_value (length h) w (ins (length h) x d t)"])
qed

lemma put_all_rep:
  assumes "rep h None (root m) t" "bst t"
  shows "\<exists>h' m' t'. TreeMap_put_all d h m vs = Some (h', m')
           \<and> rep h' None (root m') t' \<and> bst t' \<and> keys t' = keys t \<union> fst ` set vs"
  using assms
proof (induction vs arbitrary: h m t)
  case Nil
  then show ?case by auto
next
  case (Cons v vs)
  obtain x w where v: "v = (x, w)" by (cases v)
  from put_rep[OF Cons.prems, of d x w]
  obtain h1 m1 t1 where 1: "TreeMap_put d h m (x, w) = Some (h1, m1)"
      "rep h1 None (root m1) t1" "bst t1" "keys t1 = insert x (keys t)"
    by blast
  from Cons.IH[OF 1(2) 1(3)]
  obtain h' m' t' where 2: "TreeMap_put_all d h1 m1 vs = Some (h', m')"
      "rep h' None (root m') t'" "bst t'" "keys t' = keys t1 \<union> fst ` set vs"
    by blast
  show ?case using 1 2 v by auto
qed

lemma addrs_Nil_iff [simp]: "addrs t = [] \<longleftrightarrow> t = Leaf"
  by (cases t) auto

lemma leftmost_rep:
  "rep h par (Some a) t \<Longrightarrow> leftmost h a = Some (hd (addrs t))"
proof (induction t arbitrary: par a)
  case Leaf
  then show ?case by simp
next
  case (Node l b k v r)
  from Node.prems obtain n where n: "get h b = Some n" "a = b"
    "rep h (Some b) (leftChild n) l"
    by (auto split: option.splits)
  show ?case
  proof (cases "leftChild n")
    case None
    with n(3) have "l = Leaf" by (simp add: rep_None_Leaf)
    then show ?thesis using n None by (subst leftmost.simps) simp
  next
    case (Some la)
    with n(3) have "leftmost h la = Some (hd (addrs l))" by (simp add: Node.IH(1))
    moreover from Some n(3) have "l \<noteq> Leaf" by auto
    ultimately show ?thesis using n Some by (subst leftmost.simps) simp
  qed
qed

lemma prepend_prepend: "prepend xs (prepend ys r) = prepend (xs @ ys) r"
  by (cases r) auto

lemma case_prepend:
  "case_sum (\<lambda>e. Some (Inl e)) (\<lambda>xs. Some (Inr (x # xs))) = (\<lambda>r. Some (prepend [x] r))"
  by (rule ext) (auto split: sum.splits)

lemma prepend_Nil [simp]: "prepend [] r = r"
  by (cases r) auto

text \<open>Iterating from the first node of a subtree visits the subtree in order and goes on
  where the climb from the subtree's root leads.\<close>

lemma iterate_subtree:
  assumes "rep h par (Some a) t" "bst t"
  shows "iterate_loop h \<lparr>currentNode = Some (hd (addrs t))\<rparr>
           = do { e \<leftarrow> exit_ptr h a;
                  r \<leftarrow> iterate_loop h \<lparr>currentNode = e\<rparr>;
                  Some (prepend (inorder t) r) }"
  using assms
proof (induction t arbitrary: par a)
  case Leaf
  then show ?case by simp
next
  case (Node l b k v r)
  from Node.prems(1) obtain n where n: "get h b = Some n" "a = b" "val n = (k, v)"
    "parent n = par" "rep h (Some b) (leftChild n) l" "rep h (Some b) (rightChild n) r"
    by (auto split: option.splits)
  have bl: "bst l" and br: "bst r" using Node.prems(2) by auto
  note apart = bst_addrs_apart[OF Node.prems(1) Node.prems(2)]
  \<comment> \<open>from the root of the subtree\<close>
  have A: "iterate_loop h \<lparr>currentNode = Some b\<rparr>
             = do { e \<leftarrow> exit_ptr h b;
                    r' \<leftarrow> iterate_loop h \<lparr>currentNode = e\<rparr>;
                    Some (prepend ((k, v) # inorder r) r') }"
  proof (cases "rightChild n")
    case None
    with n(6) have "r = Leaf" by (simp add: rep_None_Leaf)
    then show ?thesis using n None
      by (subst iterate_loop.simps)
         (simp add: TreeMap_ConstIterator_eq_def TreeMap_end_def TreeMap_ConstIterator_deref_def
            TreeMap_ConstIterator_incr_def exit_ptr_def case_prepend)
  next
    case (Some ra)
    with n(6) have rr: "rep h (Some b) (Some ra) r" by simp
    then obtain nr where nr: "get h ra = Some nr" "parent nr = Some b"
      by (cases r) (auto split: option.splits)
    have lm: "leftmost h ra = Some (hd (addrs r))" using rr by (rule leftmost_rep)
    have ex: "exit_ptr h ra = exit_ptr h b"
      unfolding exit_ptr_def using nr n Some
      by (subst climb_from_right.simps) simp
    have "iterate_loop h \<lparr>currentNode = Some (hd (addrs r))\<rparr>
            = do { e \<leftarrow> exit_ptr h b;
                   r' \<leftarrow> iterate_loop h \<lparr>currentNode = e\<rparr>;
                   Some (prepend (inorder r) r') }"
      using Node.IH(2)[OF rr br] unfolding ex .
    then show ?thesis using n Some lm
      by (subst iterate_loop.simps)
         (simp add: TreeMap_ConstIterator_eq_def TreeMap_end_def TreeMap_ConstIterator_deref_def
            TreeMap_ConstIterator_incr_def case_prepend prepend_prepend)
  qed
  show ?case
  proof (cases "leftChild n")
    case None
    with n(5) have "l = Leaf" by (simp add: rep_None_Leaf)
    then show ?thesis using A n by simp
  next
    case (Some la)
    with n(5) have rl: "rep h (Some b) (Some la) l" by simp
    then obtain nl where nl: "get h la = Some nl" "parent nl = Some b"
      by (cases l) (auto split: option.splits)
    from rl have lne: "l \<noteq> Leaf" by auto
    have "la \<in> set (addrs l)" using rl by (cases l) auto
    then have "rightChild n \<noteq> Some la"
      using n(6) apart by (cases r) auto
    then have ex: "exit_ptr h la = Some (Some b)"
      unfolding exit_ptr_def using nl n
      by (subst climb_from_right.simps) simp
    have "iterate_loop h \<lparr>currentNode = Some (hd (addrs l))\<rparr>
            = do { r' \<leftarrow> iterate_loop h \<lparr>currentNode = Some b\<rparr>;
                   Some (prepend (inorder l) r') }"
      using Node.IH(1)[OF rl bl] ex by simp
    then show ?thesis using A n lne by (simp add: prepend_prepend)
  qed
qed

lemma iterate_rep:
  assumes "rep h None (root m) t" "bst t"
  shows "TreeMap_iterate h m = Some (Inr (inorder t))"
proof (cases "root m")
  case None
  with assms(1) have "t = Leaf" by (simp add: rep_None_Leaf)
  then show ?thesis using None
    by (simp add: TreeMap_iterate_def TreeMap_begin_def TreeMap_minElement_def
        iterate_loop.simps TreeMap_ConstIterator_eq_def TreeMap_end_def)
next
  case (Some a)
  with assms(1) have ra: "rep h None (Some a) t" by simp
  then obtain n where n: "get h a = Some n" "parent n = None"
    by (cases t) (auto split: option.splits)
  have ex: "exit_ptr h a = Some None"
    unfolding exit_ptr_def using n by (subst climb_from_right.simps) simp
  have e: "iterate_loop h \<lparr>currentNode = None\<rparr> = Some (Inr [])"
    by (simp add: iterate_loop.simps TreeMap_ConstIterator_eq_def TreeMap_end_def)
  have "iterate_loop h \<lparr>currentNode = Some (hd (addrs t))\<rparr> = Some (Inr (inorder t))"
    using iterate_subtree[OF ra assms(2)] ex e by simp
  then show ?thesis using Some leftmost_rep[OF ra]
    by (simp add: TreeMap_iterate_def TreeMap_begin_def TreeMap_minElement_def)
qed

lemma bst_sorted: "bst t \<Longrightarrow> sorted_wrt (<) (map fst (inorder t))"
  by (induction t) (fastforce simp: sorted_wrt_append keys_def)+

lemma dom_entries: "dom (entries t) = keys t"
  by (simp add: entries_def keys_def dom_map_of_conv_image_fst)

lemma entries_None_iff: "entries t x = None \<longleftrightarrow> x \<notin> keys t"
  by (simp add: entries_def keys_def map_of_eq_None_iff)

lemma entries_Leaf [simp]: "entries Leaf = Map.empty"
  by (simp add: entries_def)

lemma entries_Node:
  assumes "bst (Node l a k v r)"
  shows "entries (Node l a k v r) x
           = (if x = k then Some v else if x < k then entries l x else entries r x)"
proof -
  have kl: "k \<notin> keys l" and kr: "k \<notin> keys r" using assms by auto
  have E: "entries (Node l a k v r) x
             = (case entries l x of None \<Rightarrow> (if x = k then Some v else entries r x) | Some w \<Rightarrow> Some w)"
    by (auto simp: entries_def map_add_def split: option.splits)
  show ?thesis
  proof (cases "x = k")
    case True
    then show ?thesis using E kl entries_None_iff[of l k] by simp
  next
    case False
    show ?thesis
    proof (cases "x < k")
      case True
      then have "x \<notin> keys r" using assms by auto
      then have "entries r x = None" by (simp add: entries_None_iff)
      then show ?thesis using E True False by (simp split: option.splits)
    next
      case False
      then have "x \<notin> keys l" using assms by auto
      then have "entries l x = None" by (simp add: entries_None_iff)
      then show ?thesis using E False by simp
    qed
  qed
qed

lemma entries_ins:
  "bst t \<Longrightarrow> entries (ins b x d t) = (if x \<in> keys t then entries t else (entries t)(x \<mapsto> d))"
proof (induction t)
  case Leaf
  show ?case by (rule ext) (simp add: entries_Node)
next
  case (Node l a k v r)
  have bl: "bst l" and br: "bst r" using Node.prems by auto
  show ?case
  proof (cases "k = x")
    case True
    then show ?thesis by simp
  next
    case False
    show ?thesis
    proof (cases "x < k")
      case True
      then have xr: "x \<notin> keys r" using Node.prems by auto
      have b': "bst (Node (ins b x d l) a k v r)"
        using Node.prems True by (auto simp: bst_ins)
      show ?thesis
        using True False xr Node.IH(1)[OF bl] b' Node.prems
        by (intro ext) (simp add: entries_Node)
    next
      case nl: False
      then have xl: "x \<notin> keys l" using Node.prems by auto
      have kx: "k < x" using nl False by simp
      have b': "bst (Node l a k v (ins b x d r))"
        using Node.prems kx by (auto simp: bst_ins)
      show ?thesis
        using nl False xl Node.IH(2)[OF br] b' Node.prems
        by (intro ext) (simp add: entries_Node)
    qed
  qed
qed

lemma set_value_notin: "a \<notin> set (addrs t) \<Longrightarrow> set_value a w t = t"
  by (induction t) auto

lemma entries_set_value:
  assumes "rep h par p t" "bst t" "lookup_addr t x = Some a"
  shows "entries (set_value a w t) = (entries t)(x \<mapsto> w)"
  using assms
proof (induction t arbitrary: par p)
  case Leaf
  then show ?case by simp
next
  case (Node l b k v r)
  from Node.prems(1) obtain n where n: "get h b = Some n"
    "rep h (Some b) (leftChild n) l" "rep h (Some b) (rightChild n) r"
    by (rule rep_NodeE)
  note apart = bst_addrs_apart[OF Node.prems(1) Node.prems(2)]
  have bl: "bst l" and br: "bst r" using Node.prems(2) by auto
  have b': "bst (set_value a w (Node l b k v r))" using Node.prems(2) by (simp del: set_value.simps)
  then have b'': "bst (Node (set_value a w l) b k (if b = a then w else v) (set_value a w r))"
    by simp
  show ?case
  proof (cases "k = x")
    case True
    then have "a = b" using Node.prems(3) by simp
    then show ?thesis using True apart b'' Node.prems(2)
      by (intro ext) (simp add: entries_Node set_value_notin)
  next
    case False
    show ?thesis
    proof (cases "x < k")
      case True
      then have la: "lookup_addr l x = Some a" using Node.prems(3) False by simp
      then have "a \<in> set (addrs l)" by (rule lookup_addr_in_addrs)
      then have "a \<noteq> b" "a \<notin> set (addrs r)" using apart by auto
      then show ?thesis using True False Node.IH(1)[OF n(2) bl la] b'' Node.prems(2)
        by (intro ext) (simp add: entries_Node set_value_notin)
    next
      case nl: False
      then have la: "lookup_addr r x = Some a" using Node.prems(3) False by simp
      then have "a \<in> set (addrs r)" by (rule lookup_addr_in_addrs)
      then have "a \<noteq> b" "a \<notin> set (addrs l)" using apart by auto
      then show ?thesis using nl False Node.IH(2)[OF n(3) br la] b'' Node.prems(2)
        by (intro ext) (simp add: entries_Node set_value_notin)
    qed
  qed
qed

lemma lookup_addr_entry:
  assumes "rep h par p t" "bst t" "lookup_addr t x = Some a"
  shows "\<exists>n v. get h a = Some n \<and> val n = (x, v) \<and> entries t x = Some v"
  using assms
proof (induction t arbitrary: par p)
  case Leaf
  then show ?case by simp
next
  case (Node l b k v r)
  from Node.prems(1) obtain n where n: "get h b = Some n" "val n = (k, v)"
    "rep h (Some b) (leftChild n) l" "rep h (Some b) (rightChild n) r"
    by (rule rep_NodeE)
  have bl: "bst l" and br: "bst r" using Node.prems(2) by auto
  show ?case
  proof (cases "k = x")
    case True
    then show ?thesis using Node.prems(3) n Node.prems(2) by (simp add: entries_Node)
  next
    case False
    show ?thesis
    proof (cases "x < k")
      case True
      then have "lookup_addr l x = Some a" using Node.prems(3) False by simp
      from Node.IH(1)[OF n(3) bl this] show ?thesis
        using True False Node.prems(2) by (simp add: entries_Node)
    next
      case nl: False
      then have "lookup_addr r x = Some a" using Node.prems(3) False by simp
      from Node.IH(2)[OF n(4) br this] show ?thesis
        using nl False Node.prems(2) by (simp add: entries_Node)
    qed
  qed
qed

lemma valueOf_rep:
  assumes "rep h None (root m) t"
  shows "TreeMap_valueOf h m x
           = Some (case lookup_addr t x of
                     None \<Rightarrow> Inl (out_of_range ''Iterator out of range'')
                   | Some a \<Rightarrow> Inr a, h, m)"
proof (cases "lookup_addr t x")
  case None
  then show ?thesis using findNode_loop_rep[OF assms, of x]
    by (simp add: TreeMap_valueOf_def TreeMap_find_def TreeMap_findNode_def
        TreeMap_ConstIterator_deref_def)
next
  case (Some a)
  then have "a \<in> set (addrs t)" by (rule lookup_addr_in_addrs)
  from rep_node_key[OF assms this] obtain n where "get h a = Some n" by blast
  then show ?thesis using Some findNode_loop_rep[OF assms, of x]
    by (simp add: TreeMap_valueOf_def TreeMap_find_def TreeMap_findNode_def
        TreeMap_ConstIterator_deref_def)
qed

lemma remove_key_absent:
  assumes "rep h None (root m) t" "lookup_addr t x = None"
  shows "TreeMap_remove_key h m x = Some (Inl (out_of_range ''Iterator out of range''), h, m)"
  using findNode_loop_rep[OF assms(1), of x] assms(2)
  by (simp add: TreeMap_remove_key_def TreeMap_find_def TreeMap_findNode_def TreeMap_remove_def
      TreeMap_ConstIterator_eq_def TreeMap_end_def)

text \<open>What \<^verbatim>\<open>TreeMap::operator[]\<close> does on a search tree.\<close>

lemma TreeMap_subscript_spec:
  assumes "rep h None (root m) t" "bst t"
  shows "\<exists>a h' m' t'.
           TreeMap_operator_subscript d h m x = Some (a, h', m')
         \<and> rep h' None (root m') t' \<and> bst t'
         \<and> entries t' = (if x \<in> dom (entries t) then entries t else (entries t)(x \<mapsto> d))
         \<and> TreeMap_size m' = (if x \<in> dom (entries t) then TreeMap_size m else TreeMap_size m + 1)
         \<and> (x \<in> dom (entries t) \<longrightarrow> h' = h \<and> m' = m)
         \<and> TreeMap_ref_get h' a = entries t' x
         \<and> TreeMap_valueOf h' m' x = Some (Inr a, h', m')
         \<and> (\<forall>w. \<exists>h''. TreeMap_ref_set h' a w = Some h''
                  \<and> rep h'' None (root m') (set_value a w t') \<and> bst (set_value a w t')
                  \<and> entries (set_value a w t') = (entries t')(x \<mapsto> w)
                  \<and> TreeMap_ref_get h'' a = Some w)"
proof -
  have main: "\<exists>a h' m' t'.
           TreeMap_operator_subscript d h m x = Some (a, h', m')
         \<and> rep h' None (root m') t' \<and> bst t' \<and> lookup_addr t' x = Some a
         \<and> entries t' = (if x \<in> keys t then entries t else (entries t)(x \<mapsto> d))
         \<and> TreeMap_size m' = (if x \<in> keys t then TreeMap_size m else TreeMap_size m + 1)
         \<and> (x \<in> keys t \<longrightarrow> h' = h \<and> m' = m)"
  proof (cases "x \<in> keys t")
    case True
    from lookup_addr_present[OF assms(2) True] obtain a where a: "lookup_addr t x = Some a" by blast
    show ?thesis using subscript_present[OF assms(1) a, of d] assms a True by auto
  next
    case False
    from subscript_absent[OF assms False, of d]
    obtain h' m' where h': "TreeMap_operator_subscript d h m x = Some (length h, h', m')"
        "rep h' None (root m') (ins (length h) x d t)"
        "TreeMap_size m' = TreeMap_size m + 1"
      by blast
    show ?thesis
      using h' False bst_ins[OF assms(2)] lookup_addr_ins_new[OF False] entries_ins[OF assms(2)]
      by auto
  qed
  then obtain a h' m' t' where r: "TreeMap_operator_subscript d h m x = Some (a, h', m')"
      "rep h' None (root m') t'" "bst t'" "lookup_addr t' x = Some a"
      "entries t' = (if x \<in> keys t then entries t else (entries t)(x \<mapsto> d))"
      "TreeMap_size m' = (if x \<in> keys t then TreeMap_size m else TreeMap_size m + 1)"
      "x \<in> keys t \<longrightarrow> h' = h \<and> m' = m"
    by blast
  from lookup_addr_entry[OF r(2) r(3) r(4)] obtain n v where n: "get h' a = Some n"
      "val n = (x, v)" "entries t' x = Some v" by blast
  have g: "TreeMap_ref_get h' a = entries t' x" using n by (simp add: TreeMap_ref_get_def)
  have vo: "TreeMap_valueOf h' m' x = Some (Inr a, h', m')"
    using valueOf_rep[OF r(2), of x] r(4) by simp
  have al: "a < length h'" using n(1) by (rule get_Some_less)
  have mut: "\<forall>w. \<exists>h''. TreeMap_ref_set h' a w = Some h''
                  \<and> rep h'' None (root m') (set_value a w t') \<and> bst (set_value a w t')
                  \<and> entries (set_value a w t') = (entries t')(x \<mapsto> w)
                  \<and> TreeMap_ref_get h'' a = Some w"
  proof
    fix w
    show "\<exists>h''. TreeMap_ref_set h' a w = Some h''
                  \<and> rep h'' None (root m') (set_value a w t') \<and> bst (set_value a w t')
                  \<and> entries (set_value a w t') = (entries t')(x \<mapsto> w)
                  \<and> TreeMap_ref_get h'' a = Some w"
      using rep_set_value[OF r(2) n(1), of w] entries_set_value[OF r(2) r(3) r(4), of w] r(3) n al
      by (simp add: TreeMap_ref_set_def TreeMap_ref_get_def get_update)
  qed
  show ?thesis
    using r(1,2,3,5,6,7) g vo mut unfolding dom_entries by blast
qed

lemma find_if_key_le: "find_if_key b k \<le> length b"
  by (induction b) auto

lemma find_if_key_end: "find_if_key b k = length b \<longleftrightarrow> k \<notin> fst ` set b"
proof (induction b)
  case Nil
  show ?case by simp
next
  case (Cons v b)
  have "find_if_key b k \<le> length b" by (rule find_if_key_le)
  then show ?case using Cons by auto
qed

lemma find_if_key_found:
  "find_if_key b k < length b \<Longrightarrow>
     fst (b ! find_if_key b k) = k \<and> map_of b k = Some (snd (b ! find_if_key b k))"
  by (induction b) auto

lemma map_of_update_found:
  "find_if_key b k < length b \<Longrightarrow>
     map_of (b[find_if_key b k := (k, w)]) = (map_of b)(k \<mapsto> w)"
  by (induction b) (auto simp: fun_upd_twist)

lemma map_fst_update_found:
  "find_if_key b k < length b \<Longrightarrow> map fst (b[find_if_key b k := (k, w)]) = map fst b"
  by (induction b) auto

lemma set_update_found:
  "find_if_key b k < length b \<Longrightarrow> fst ` set (b[find_if_key b k := (k, w)]) = fst ` set b"
  using map_fst_update_found[of b k w] by (metis list.set_map)

lemma find_if_key_append_new:
  "k \<notin> fst ` set b \<Longrightarrow> find_if_key (b @ [(k, d)]) k = length b"
  by (induction b) auto

lemma map_of_concat_bucket:
  "i < length bs \<Longrightarrow> (\<forall>j < length bs. j \<noteq> i \<longrightarrow> k \<notin> fst ` set (bs ! j)) \<Longrightarrow>
     map_of (concat bs) k = map_of (bs ! i) k"
proof (induction bs arbitrary: i)
  case Nil
  then show ?case by simp
next
  case (Cons b bs)
  show ?case
  proof (cases i)
    case 0
    have "\<forall>j < length bs. k \<notin> fst ` set (bs ! j)"
    proof (intro allI impI)
      fix j assume "j < length bs"
      then show "k \<notin> fst ` set (bs ! j)" using Cons.prems(2)[rule_format, of "Suc j"] 0 by simp
    qed
    then have "\<forall>b \<in> set bs. k \<notin> fst ` set b"
      by (metis in_set_conv_nth)
    then have "k \<notin> fst ` set (concat bs)"
      by auto
    then have "map_of (concat bs) k = None" by (simp add: map_of_eq_None_iff)
    then show ?thesis using 0 by (simp add: map_add_def split: option.splits)
  next
    case (Suc i')
    have "k \<notin> fst ` set b" using Cons.prems(2)[rule_format, of 0] Suc by simp
    then have b: "map_of b k = None" by (simp add: map_of_eq_None_iff)
    have "map_of (concat bs) k = map_of (bs ! i') k"
    proof (rule Cons.IH)
      show "i' < length bs" using Cons.prems(1) Suc by simp
      show "\<forall>j<length bs. j \<noteq> i' \<longrightarrow> k \<notin> fst ` set (bs ! j)"
      proof (intro allI impI)
        fix j assume "j < length bs" "j \<noteq> i'"
        then show "k \<notin> fst ` set (bs ! j)"
          using Cons.prems(2)[rule_format, of "Suc j"] Suc by simp
      qed
    qed
    then show ?thesis using b Suc by (simp add: map_add_def)
  qed
qed

subsection \<open>The buckets of a hash map\<close>

lemma findBucket_less: "HashMap_findBucket T k < MAP_SIZE"
  by (simp add: HashMap_findBucket_def MAP_SIZE_def)

lemma entries_bucket:
  assumes "HashMap_inv T m"
  shows "HashMap_entries m k = map_of (buckets m ! HashMap_findBucket T k) k"
  unfolding HashMap_entries_def
proof (rule map_of_concat_bucket)
  show "HashMap_findBucket T k < length (buckets m)"
    using assms findBucket_less[of T k] by (simp add: HashMap_inv_def)
  show "\<forall>j<length (buckets m). j \<noteq> HashMap_findBucket T k \<longrightarrow> k \<notin> fst ` set (buckets m ! j)"
    using assms by (auto simp: HashMap_inv_def)
qed

lemma HashMap_absent_bucket:
  assumes "length (buckets m) = MAP_SIZE" "k \<notin> dom (HashMap_entries m)"
  shows "find_if_key (buckets m ! HashMap_findBucket T k) k
           = length (buckets m ! HashMap_findBucket T k)"
proof -
  have "k \<notin> fst ` set (concat (buckets m))"
    using assms(2) by (simp add: HashMap_entries_def dom_map_of_conv_image_fst)
  moreover have "buckets m ! HashMap_findBucket T k \<in> set (buckets m)"
    using assms(1) findBucket_less[of T k] by simp
  ultimately have "k \<notin> fst ` set (buckets m ! HashMap_findBucket T k)" by auto
  then show ?thesis by (simp add: find_if_key_end)
qed

lemma HashMap_subscript_spec:
  assumes "HashMap_inv T m"
  shows "\<exists>r m'.
           HashMap_operator_subscript T m k = (r, m')
         \<and> HashMap_inv T m'
         \<and> HashMap_entries m' = (if k \<in> dom (HashMap_entries m) then HashMap_entries m
                                  else (HashMap_entries m)(k \<mapsto> mapped_type T))
         \<and> HashMap_size m' = (if k \<in> dom (HashMap_entries m) then HashMap_size m
                               else HashMap_size m + 1)
         \<and> (k \<in> dom (HashMap_entries m) \<longrightarrow> m' = m)
         \<and> HashMap_ref_get m' r = HashMap_entries m' k
         \<and> HashMap_valueOf T m' k = Some (Inr r, m')
         \<and> (\<forall>w. \<exists>m''. HashMap_ref_set m' r w = Some m''
                  \<and> HashMap_inv T m''
                  \<and> HashMap_entries m'' = (HashMap_entries m')(k \<mapsto> w)
                  \<and> HashMap_ref_get m'' r = Some w)"
proof -
  let ?i = "HashMap_findBucket T k"
  let ?b = "buckets m ! ?i"
  have len: "length (buckets m) = MAP_SIZE" using assms by (simp add: HashMap_inv_def)
  have i: "?i < length (buckets m)" using len findBucket_less[of T k] by simp
  have dom: "k \<in> dom (HashMap_entries m) \<longleftrightarrow> k \<in> fst ` set ?b"
    using entries_bucket[OF assms, of k] map_of_eq_None_iff[of ?b k] by (auto simp: dom_def)
  \<comment> \<open>a map that holds the key in its bucket at the offset \<open>j\<close>\<close>
  have found: "HashMap_ref_get m' (?i, j) = HashMap_entries m' k
         \<and> HashMap_valueOf T m' k = Some (Inr (?i, j), m')
         \<and> (\<forall>w. \<exists>m''. HashMap_ref_set m' (?i, j) w = Some m''
                  \<and> HashMap_inv T m''
                  \<and> HashMap_entries m'' = (HashMap_entries m')(k \<mapsto> w)
                  \<and> HashMap_ref_get m'' (?i, j) = Some w)"
    if inv': "HashMap_inv T m'" and j: "find_if_key (buckets m' ! ?i) k = j"
      "j < length (buckets m' ! ?i)" for m' j
  proof -
    let ?b' = "buckets m' ! ?i"
    have len': "length (buckets m') = MAP_SIZE" using inv' by (simp add: HashMap_inv_def)
    have i': "?i < length (buckets m')" using len' findBucket_less[of T k] by simp
    have f: "fst (?b' ! j) = k" "map_of ?b' k = Some (snd (?b' ! j))"
      using find_if_key_found[of ?b' k] j by auto
    have 1: "HashMap_ref_get m' (?i, j) = HashMap_entries m' k"
      using entries_bucket[OF inv', of k] f i' j by (simp add: HashMap_ref_get_def)
    have 2: "HashMap_valueOf T m' k = Some (Inr (?i, j), m')"
      using j by (simp add: HashMap_valueOf_def HashMap_findOrThrow_def)
    have 3: "\<exists>m''. HashMap_ref_set m' (?i, j) w = Some m''
                  \<and> HashMap_inv T m''
                  \<and> HashMap_entries m'' = (HashMap_entries m')(k \<mapsto> w)
                  \<and> HashMap_ref_get m'' (?i, j) = Some w" for w
    proof -
      let ?m'' = "m'\<lparr>buckets := (buckets m')[?i := ?b'[j := (k, w)]]\<rparr>"
      have s: "HashMap_ref_set m' (?i, j) w = Some ?m''"
        using i' j f by (simp add: HashMap_ref_set_def)
      have mf: "map fst (?b'[j := (k, w)]) = map fst ?b'"
        using map_fst_update_found[of ?b' k w] j by simp
      have st: "fst ` set (?b'[j := (k, w)]) = fst ` set ?b'"
        using set_update_found[of ?b' k w] j by simp
      have inv'': "HashMap_inv T ?m''"
        unfolding HashMap_inv_def
      proof (intro conjI allI impI)
        show "length (buckets ?m'') = MAP_SIZE" using len' by simp
      next
        fix x assume x: "x < MAP_SIZE"
        show "\<forall>v\<in>set (buckets ?m'' ! x). HashMap_findBucket T (fst v) = x"
        proof (cases "x = ?i")
          case True
          have "\<forall>v\<in>set ?b'. HashMap_findBucket T (fst v) = ?i"
            using inv' findBucket_less[of T k] by (simp add: HashMap_inv_def)
          then have "\<forall>y \<in> fst ` set ?b'. HashMap_findBucket T y = ?i" by auto
          then have "\<forall>y \<in> fst ` set (?b'[j := (k, w)]). HashMap_findBucket T y = ?i"
            using st by simp
          then show ?thesis using True i' by auto
        next
          case False
          then show ?thesis using inv' x by (simp add: HashMap_inv_def)
        qed
        show "distinct (map fst (buckets ?m'' ! x))"
        proof (cases "x = ?i")
          case True
          then show ?thesis using inv' x i' mf by (simp add: HashMap_inv_def)
        next
          case False
          then show ?thesis using inv' x by (simp add: HashMap_inv_def)
        qed
      qed
      have e: "HashMap_entries ?m'' = (HashMap_entries m')(k \<mapsto> w)"
      proof (rule ext)
        fix y
        show "HashMap_entries ?m'' y = ((HashMap_entries m')(k \<mapsto> w)) y"
        proof (cases "HashMap_findBucket T y = ?i")
          case True
          then show ?thesis
            using entries_bucket[OF inv'', of y] entries_bucket[OF inv', of y] i'
              map_of_update_found[of ?b' k w] j
            by simp
        next
          case False
          then have "y \<noteq> k" by auto
          then show ?thesis
            using entries_bucket[OF inv'', of y] entries_bucket[OF inv', of y] False by simp
        qed
      qed
      have g: "HashMap_ref_get ?m'' (?i, j) = Some w"
        using i' j by (simp add: HashMap_ref_get_def)
      show ?thesis using s inv'' e g by blast
    qed
    show ?thesis using 1 2 3 by blast
  qed
  show ?thesis
  proof (cases "k \<in> dom (HashMap_entries m)")
    case True
    then have "find_if_key ?b k \<noteq> length ?b" using dom by (simp add: find_if_key_end)
    then have j: "find_if_key ?b k < length ?b" using find_if_key_le[of ?b k] by simp
    have op: "HashMap_operator_subscript T m k = ((?i, find_if_key ?b k), m)"
      using j by (simp add: HashMap_operator_subscript_def HashMap_findInBucket_def Let_def)
    show ?thesis using op True assms found[OF assms refl j] by simp
  next
    case False
    then have kb: "k \<notin> fst ` set ?b" using dom by simp
    then have e: "find_if_key ?b k = length ?b" by (simp add: find_if_key_end)
    let ?m' = "m\<lparr>buckets := (buckets m)[?i := ?b @ [(k, mapped_type T)]],
                 HashMap_size := HashMap_size m + 1\<rparr>"
    have op: "HashMap_operator_subscript T m k = ((?i, length ?b), ?m')"
      using e by (simp add: HashMap_operator_subscript_def HashMap_findInBucket_def Let_def)
    have inv': "HashMap_inv T ?m'"
      unfolding HashMap_inv_def
    proof (intro conjI allI impI)
      show "length (buckets ?m') = MAP_SIZE" using len by simp
    next
      fix x assume x: "x < MAP_SIZE"
      show "\<forall>v\<in>set (buckets ?m' ! x). HashMap_findBucket T (fst v) = x"
        using assms x i by (cases "x = ?i") (auto simp: HashMap_inv_def)
      show "distinct (map fst (buckets ?m' ! x))"
        using assms x i kb by (cases "x = ?i") (auto simp: HashMap_inv_def)
    qed
    have en: "HashMap_entries ?m' = (HashMap_entries m)(k \<mapsto> mapped_type T)"
    proof (rule ext)
      fix y
      show "HashMap_entries ?m' y = ((HashMap_entries m)(k \<mapsto> mapped_type T)) y"
      proof (cases "HashMap_findBucket T y = ?i")
        case True
        have "map_of ?b k = None" using kb by (simp add: map_of_eq_None_iff)
        then show ?thesis
          using entries_bucket[OF inv', of y] entries_bucket[OF assms, of y] i True
          by (auto simp: map_add_def split: option.splits)
      next
        case False
        then have "y \<noteq> k" by auto
        then show ?thesis
          using entries_bucket[OF inv', of y] entries_bucket[OF assms, of y] False by simp
      qed
    qed
    have j': "find_if_key (buckets ?m' ! ?i) k = length ?b"
      using i find_if_key_append_new[OF kb] by simp
    have j'': "length ?b < length (buckets ?m' ! ?i)" using i by simp
    show ?thesis using op False inv' en found[OF inv' j' j''] by simp
  qed
qed

subsection \<open>Removal keeps the invariants\<close>

text \<open>
  The hypotheses of the theorems below are invariants: the empty maps satisfy them,
  \<^verbatim>\<open>operator[]\<close> and an assignment through the reference it returns keep them
  (\<open>put_rep\<close>, \<open>HashMap_subscript_spec\<close>), and so does removal.
\<close>

lemma del_notin: "a \<notin> set (addrs t) \<Longrightarrow> del a t = t"
  by (induction t) auto

lemma keys_del: "keys (del a t) \<subseteq> keys t"
  by (induction t) auto

lemma addrs_del: "set (addrs (del a t)) \<subseteq> set (addrs t)"
  by (induction t) auto

lemma bst_del: "bst t \<Longrightarrow> bst (del a t)"
proof (induction t)
  case Leaf
  then show ?case by simp
next
  case (Node l b k v r)
  have "keys (del a l) \<subseteq> keys l" "keys (del a r) \<subseteq> keys r" by (rule keys_del)+
  then show ?case using Node by auto
qed

text \<open>The pointer that takes the place of a removed node, and the heap after
  \<^verbatim>\<open>branch->parent = nodeToDelete->parent\<close>.\<close>

lemma unlink_rep:
  assumes "rep h par (Some a) t" "bst t" "get h a = Some n"
    and bp: "bp = (if rightChild n = None then leftChild n else rightChild n)"
    and h1: "case bp of None \<Rightarrow> h1 = h
             | Some c \<Rightarrow> (\<exists>nc. get h c = Some nc \<and> h1 = h[c := Some (nc\<lparr>parent := par\<rparr>)])"
  shows "rep h1 par bp (del a t)"
proof -
  from assms(1) obtain l k v r where t: "t = Node l a k v r" by (cases t) auto
  from assms(1) assms(3) have n: "val n = (k, v)" "rep h (Some a) (leftChild n) l"
      "rep h (Some a) (rightChild n) r"
    unfolding t by auto
  note apart = bst_addrs_apart[OF assms(1)[unfolded t] assms(2)[unfolded t]]
  have bl: "bst l" and br: "bst r" using assms(2) t by auto
  \<comment> \<open>the subtree \<open>s\<close> at the pointer \<open>q\<close> gets the parent \<open>par\<close>\<close>
  have reparent: "rep h1 par q s"
    if s: "rep h (Some a) q s" "bst s" and q: "bp = q" for q s
  proof (cases s)
    case Leaf
    then show ?thesis using s by simp
  next
    case (Node sl c sk sv sr)
    from s(1) obtain nc where nc: "get h c = Some nc" "q = Some c" "val nc = (sk, sv)"
        "rep h (Some c) (leftChild nc) sl" "rep h (Some c) (rightChild nc) sr"
      unfolding Node by (rule rep_NodeE)
    have h1': "h1 = h[c := Some (nc\<lparr>parent := par\<rparr>)]" using h1 q nc by simp
    note ap = bst_addrs_apart[OF s(1)[unfolded Node] s(2)[unfolded Node]]
    have cl: "c < length h" using nc(1) by (rule get_Some_less)
    have "rep h1 (Some c) (leftChild nc) sl"
      using nc(4) by (rule rep_frame) (use ap h1' in \<open>auto simp: get_update\<close>)
    moreover have "rep h1 (Some c) (rightChild nc) sr"
      using nc(5) by (rule rep_frame) (use ap h1' in \<open>auto simp: get_update\<close>)
    ultimately show ?thesis using nc cl h1' Node by (simp add: get_update)
  qed
  show ?thesis
  proof (cases "rightChild n")
    case None
    then have "r = Leaf" using n(3) by (simp add: rep_None_Leaf)
    moreover have "rep h1 par (leftChild n) l"
      using n(2) bl bp None by (intro reparent) auto
    ultimately show ?thesis using t bp None by simp
  next
    case (Some c)
    then have "r \<noteq> Leaf" using n(3) by auto
    moreover have "rep h1 par (rightChild n) r"
      using n(3) br bp Some by (intro reparent) auto
    ultimately show ?thesis using t bp Some by simp
  qed
qed

lemma remove_eval:
  assumes n: "get h a = Some n"
    and sl: "(case parent n of
               None \<Rightarrow> Some root_slot
             | Some p \<Rightarrow> do {
                 pn \<leftarrow> get h p;
                 Some (if leftChild pn = Some a then leftChild_slot p else rightChild_slot p)
               }) = Some sl"
    and bp: "bp = (if rightChild n = None then leftChild n else rightChild n)"
    and h1: "case bp of None \<Rightarrow> h1 = h
             | Some c \<Rightarrow> (\<exists>nc. get h c = Some nc \<and> h1 = h[c := Some (nc\<lparr>parent := parent n\<rparr>)])"
    and w: "write_slot h1 m sl bp = Some (h2, m2)"
    and d: "get h2 a = Some n2"
  shows "TreeMap_remove h m \<lparr>currentNode = Some a\<rparr>
           = Some (Inr (), h2[a := None], m2\<lparr>TreeMap_size := TreeMap_size m2 - 1\<rparr>)"
proof (cases bp)
  case None
  then have c: "leftChild n = None \<and> rightChild n = None" using bp by (auto split: if_splits)
  have "h1 = h" using h1 None by simp
  then show ?thesis using n sl c w d None
    by (simp add: TreeMap_remove_def TreeMap_ConstIterator_eq_def TreeMap_end_def delete_def)
next
  case bpc: (Some c)
  from h1 bpc obtain nc where nc: "get h c = Some nc" "h1 = h[c := Some (nc\<lparr>parent := parent n\<rparr>)]"
    by auto
  show ?thesis
  proof (cases "rightChild n")
    case None
    then have "leftChild n = Some c" using bp bpc by simp
    then show ?thesis using n sl w d None nc bpc
      by (simp add: TreeMap_remove_def TreeMap_ConstIterator_eq_def TreeMap_end_def delete_def)
  next
    case r: (Some c')
    then have "rightChild n = Some c" using bp bpc by simp
    then show ?thesis using n sl w d nc bpc
      by (simp add: TreeMap_remove_def TreeMap_ConstIterator_eq_def TreeMap_end_def delete_def)
  qed
qed

lemma unlink_exists:
  assumes "rep h par (Some a) s" "bst s" "get h a = Some n"
    and bp: "bp = (if rightChild n = None then leftChild n else rightChild n)"
  obtains h1 where
    "case bp of None \<Rightarrow> h1 = h
     | Some c \<Rightarrow> (\<exists>nc. get h c = Some nc \<and> h1 = h[c := Some (nc\<lparr>parent := parent n\<rparr>)])"
    "rep h1 par bp (del a s)"
    "\<And>x. x \<notin> set (addrs s) \<Longrightarrow> get h1 x = get h x"
    "get h1 a = Some n"
proof -
  from assms(1) obtain l k v r where s: "s = Node l a k v r" by (cases s) auto
  from assms(1) assms(3) have n: "parent n = par" "rep h (Some a) (leftChild n) l"
      "rep h (Some a) (rightChild n) r"
    unfolding s by auto
  note apart = bst_addrs_apart[OF assms(1)[unfolded s] assms(2)[unfolded s]]
  show thesis
  proof (cases bp)
    case None
    have "rep h par bp (del a s)"
      by (rule unlink_rep[OF assms(1) assms(2) assms(3) bp]) (simp add: None)
    then show ?thesis using that[of h] None assms(3) by simp
  next
    case (Some c)
    have "rep h (Some a) (Some c) l \<or> rep h (Some a) (Some c) r"
      using bp Some n by (auto split: if_splits)
    then have c: "c \<in> set (addrs l) \<union> set (addrs r)"
      by (auto dest!: rep_Some_Node)
    then obtain nc where nc: "get h c = Some nc"
      using rep_node_key[OF n(2)] rep_node_key[OF n(3)] by blast
    let ?h1 = "h[c := Some (nc\<lparr>parent := parent n\<rparr>)]"
    have ca: "c \<noteq> a" using c apart by auto
    have 1: "case bp of None \<Rightarrow> ?h1 = h
       | Some c \<Rightarrow> (\<exists>nc. get h c = Some nc \<and> ?h1 = h[c := Some (nc\<lparr>parent := parent n\<rparr>)])"
      using Some nc by simp
    have 2: "rep ?h1 par bp (del a s)"
      by (rule unlink_rep[OF assms(1) assms(2) assms(3) bp]) (use Some nc n in simp)
    have 3: "\<And>x. x \<notin> set (addrs s) \<Longrightarrow> get ?h1 x = get h x"
      using c s by (auto simp: get_update)
    have 4: "get ?h1 a = Some n" using ca assms(3) by (simp add: get_update)
    show ?thesis using that[OF 1 2 3 4] .
  qed
qed

lemma addrs_del_root:
  assumes "rep h par (Some a) s" "bst s"
  shows "a \<notin> set (addrs (del a s))" "set (addrs (del a s)) \<subseteq> set (addrs s)"
proof -
  from assms(1) obtain l k v r where s: "s = Node l a k v r" by (cases s) auto
  note apart = bst_addrs_apart[OF assms(1)[unfolded s] assms(2)[unfolded s]]
  show "a \<notin> set (addrs (del a s))" using apart s by auto
  show "set (addrs (del a s)) \<subseteq> set (addrs s)" by (rule addrs_del)
qed

text \<open>Removal of a node below the root of the subtree \<open>t\<close>.\<close>

lemma remove_inner:
  assumes "rep h par p t" "bst t" "a \<in> set (addrs t)" "p \<noteq> Some a"
  shows "\<exists>h'. TreeMap_remove h m \<lparr>currentNode = Some a\<rparr>
                 = Some (Inr (), h', m\<lparr>TreeMap_size := TreeMap_size m - 1\<rparr>)
           \<and> rep h' par p (del a t)
           \<and> (\<forall>x. x \<notin> set (addrs t) \<longrightarrow> get h' x = get h x)"
  using assms
proof (induction t arbitrary: par p)
  case Leaf
  then show ?case by simp
next
  case (Node l b k v r)
  from Node.prems(1) obtain nb where nb: "get h b = Some nb" "p = Some b" "val nb = (k, v)"
    "parent nb = par" "rep h (Some b) (leftChild nb) l" "rep h (Some b) (rightChild nb) r"
    by (rule rep_NodeE)
  note apart = bst_addrs_apart[OF Node.prems(1) Node.prems(2)]
  have bl: "bst l" and br: "bst r" using Node.prems(2) by auto
  have ab: "a \<noteq> b" using Node.prems(4) nb by simp
  have bll: "b < length h" using nb(1) by (rule get_Some_less)
  \<comment> \<open>the node is the root \<open>a\<close> of the child subtree \<open>s\<close>, which hangs in the slot \<open>sl\<close> of \<open>b\<close>\<close>
  have child: "\<exists>h'. TreeMap_remove h m \<lparr>currentNode = Some a\<rparr>
                 = Some (Inr (), h', m\<lparr>TreeMap_size := TreeMap_size m - 1\<rparr>)
           \<and> rep h' (Some b) bp (del a s)
           \<and> get h' b = Some (upd nb)
           \<and> (\<forall>x. x \<notin> set (addrs s) \<longrightarrow> x \<noteq> b \<longrightarrow> get h' x = get h x)"
    if s: "rep h (Some b) (Some a) s" "bst s" "b \<notin> set (addrs s)"
      and sl: "(if leftChild nb = Some a then leftChild_slot b else rightChild_slot b) = sl"
      and w: "\<And>h1. get h1 b = Some nb \<Longrightarrow> write_slot h1 m sl bp = Some (h1[b := Some (upd nb)], m)"
      and bp: "bp = (if rightChild na = None then leftChild na else rightChild na)"
      and na: "get h a = Some na"
    for s sl bp na upd
  proof -
    have pa: "parent na = Some b" using s(1) na by (cases s) auto
    from unlink_exists[OF s(1) s(2) na bp]
    obtain h1 where h1:
      "case bp of None \<Rightarrow> h1 = h
       | Some c \<Rightarrow> (\<exists>nc. get h c = Some nc \<and> h1 = h[c := Some (nc\<lparr>parent := parent na\<rparr>)])"
      "rep h1 (Some b) bp (del a s)"
      "\<And>x. x \<notin> set (addrs s) \<Longrightarrow> get h1 x = get h x"
      "get h1 a = Some na"
      by blast
    have g1b: "get h1 b = Some nb" using h1(3)[OF s(3)] nb by simp
    have b1: "b < length h1" using g1b by (rule get_Some_less)
    have a1: "a < length h1" using h1(4) by (rule get_Some_less)
    let ?h2 = "h1[b := Some (upd nb)]"
    let ?h' = "?h2[a := None]"
    have w': "write_slot h1 m sl bp = Some (?h2, m)" using w[OF g1b] .
    have g2a: "get ?h2 a = Some na" using h1(4) ab by (simp add: get_update)
    have slq: "(case parent na of
               None \<Rightarrow> Some root_slot
             | Some p \<Rightarrow> do {
                 pn \<leftarrow> get h p;
                 Some (if leftChild pn = Some a then leftChild_slot p else rightChild_slot p)
               }) = Some sl"
      using pa nb sl by simp
    have ev: "TreeMap_remove h m \<lparr>currentNode = Some a\<rparr>
           = Some (Inr (), ?h', m\<lparr>TreeMap_size := TreeMap_size m - 1\<rparr>)"
      by (rule remove_eval[OF na slq bp h1(1) w' g2a])
    note ad = addrs_del_root[OF s(1) s(2)]
    have r: "rep ?h' (Some b) bp (del a s)"
      using h1(2)
    proof (rule rep_frame)
      fix x assume x: "x \<in> set (addrs (del a s))"
      then have "x \<noteq> a" "x \<noteq> b" using ad s(3) by auto
      then show "get ?h' x = get h1 x" by (simp add: get_update)
    qed
    have gb: "get ?h' b = Some (upd nb)" using ab b1 by (simp add: get_update)
    have fr: "\<forall>x. x \<notin> set (addrs s) \<longrightarrow> x \<noteq> b \<longrightarrow> get ?h' x = get h x"
    proof (intro allI impI)
      fix x assume x: "x \<notin> set (addrs s)" "x \<noteq> b"
      have "a \<in> set (addrs s)" using s(1) by (cases s) auto
      then have "x \<noteq> a" using x by auto
      then show "get ?h' x = get h x" using x h1(3)[of x] by (simp add: get_update)
    qed
    show ?thesis using ev r gb fr by blast
  qed
  from Node.prems(3) ab consider "a \<in> set (addrs l)" | "a \<in> set (addrs r)" by auto
  then show ?case
  proof cases
    case 1
    then have nr: "a \<notin> set (addrs r)" using apart by auto
    show ?thesis
    proof (cases "leftChild nb = Some a")
      case True
      then have s: "rep h (Some b) (Some a) l" using nb(5) by simp
      from rep_node_key[OF nb(5) 1] obtain na where na: "get h a = Some na" by blast
      let ?bp = "if rightChild na = None then leftChild na else rightChild na"
      have sl: "(if leftChild nb = Some a then leftChild_slot b else rightChild_slot b)
                  = leftChild_slot b"
        using True by simp
      have w: "\<And>h1. get h1 b = Some nb \<Longrightarrow>
                 write_slot h1 m (leftChild_slot b) ?bp
                   = Some (h1[b := Some ((\<lambda>n. n\<lparr>leftChild := ?bp\<rparr>) nb)], m)"
        by simp
      from child[where s = l and sl = "leftChild_slot b" and bp = ?bp and na = na
                   and upd = "\<lambda>n. n\<lparr>leftChild := ?bp\<rparr>", OF s bl apart(1) sl w refl na]
      obtain h' where h': "TreeMap_remove h m \<lparr>currentNode = Some a\<rparr>
                 = Some (Inr (), h', m\<lparr>TreeMap_size := TreeMap_size m - 1\<rparr>)"
          "rep h' (Some b) ?bp (del a l)"
          "get h' b = Some (nb\<lparr>leftChild := ?bp\<rparr>)"
          "\<forall>x. x \<notin> set (addrs l) \<longrightarrow> x \<noteq> b \<longrightarrow> get h' x = get h x"
        by blast
      have rr: "rep h' (Some b) (rightChild nb) r"
        using nb(6) by (rule rep_frame) (use h'(4) apart in auto)
      have "rep h' par p (del a (Node l b k v r))"
        using ab nb h'(2,3) rr nr by (simp add: del_notin)
      moreover have "\<forall>x. x \<notin> set (addrs (Node l b k v r)) \<longrightarrow> get h' x = get h x"
        using h'(4) by simp
      ultimately show ?thesis using h'(1) by blast
    next
      case False
      then have pl: "leftChild nb \<noteq> Some a" .
      from Node.IH(1)[OF nb(5) bl 1 pl]
      obtain h' where h': "TreeMap_remove h m \<lparr>currentNode = Some a\<rparr>
                 = Some (Inr (), h', m\<lparr>TreeMap_size := TreeMap_size m - 1\<rparr>)"
          "rep h' (Some b) (leftChild nb) (del a l)"
          "\<forall>x. x \<notin> set (addrs l) \<longrightarrow> get h' x = get h x"
        by blast
      have gb: "get h' b = Some nb" using h'(3) apart nb by simp
      have rr: "rep h' (Some b) (rightChild nb) r"
        using nb(6) by (rule rep_frame) (use h'(3) apart in auto)
      have "rep h' par p (del a (Node l b k v r))"
        using ab nb gb h'(2) rr nr by (simp add: del_notin)
      moreover have "\<forall>x. x \<notin> set (addrs (Node l b k v r)) \<longrightarrow> get h' x = get h x"
        using h'(3) by simp
      ultimately show ?thesis using h'(1) by blast
    qed
  next
    case 2
    then have nl: "a \<notin> set (addrs l)" using apart by auto
    have lna: "leftChild nb \<noteq> Some a"
    proof
      assume "leftChild nb = Some a"
      then have "rep h (Some b) (Some a) l" using nb(5) by simp
      then have "a \<in> set (addrs l)" by (cases l) auto
      then show False using nl by simp
    qed
    show ?thesis
    proof (cases "rightChild nb = Some a")
      case True
      then have s: "rep h (Some b) (Some a) r" using nb(6) by simp
      from rep_node_key[OF nb(6) 2] obtain na where na: "get h a = Some na" by blast
      let ?bp = "if rightChild na = None then leftChild na else rightChild na"
      have sl: "(if leftChild nb = Some a then leftChild_slot b else rightChild_slot b)
                  = rightChild_slot b"
        using lna by simp
      have w: "\<And>h1. get h1 b = Some nb \<Longrightarrow>
                 write_slot h1 m (rightChild_slot b) ?bp
                   = Some (h1[b := Some ((\<lambda>n. n\<lparr>rightChild := ?bp\<rparr>) nb)], m)"
        by simp
      from child[where s = r and sl = "rightChild_slot b" and bp = ?bp and na = na
                   and upd = "\<lambda>n. n\<lparr>rightChild := ?bp\<rparr>", OF s br apart(2) sl w refl na]
      obtain h' where h': "TreeMap_remove h m \<lparr>currentNode = Some a\<rparr>
                 = Some (Inr (), h', m\<lparr>TreeMap_size := TreeMap_size m - 1\<rparr>)"
          "rep h' (Some b) ?bp (del a r)"
          "get h' b = Some (nb\<lparr>rightChild := ?bp\<rparr>)"
          "\<forall>x. x \<notin> set (addrs r) \<longrightarrow> x \<noteq> b \<longrightarrow> get h' x = get h x"
        by blast
      have rl: "rep h' (Some b) (leftChild nb) l"
        using nb(5) by (rule rep_frame) (use h'(4) apart in auto)
      have "rep h' par p (del a (Node l b k v r))"
        using ab nb h'(2,3) rl nl by (simp add: del_notin)
      moreover have "\<forall>x. x \<notin> set (addrs (Node l b k v r)) \<longrightarrow> get h' x = get h x"
        using h'(4) by simp
      ultimately show ?thesis using h'(1) by blast
    next
      case False
      from Node.IH(2)[OF nb(6) br 2 False]
      obtain h' where h': "TreeMap_remove h m \<lparr>currentNode = Some a\<rparr>
                 = Some (Inr (), h', m\<lparr>TreeMap_size := TreeMap_size m - 1\<rparr>)"
          "rep h' (Some b) (rightChild nb) (del a r)"
          "\<forall>x. x \<notin> set (addrs r) \<longrightarrow> get h' x = get h x"
        by blast
      have gb: "get h' b = Some nb" using h'(3) apart nb by simp
      have rl: "rep h' (Some b) (leftChild nb) l"
        using nb(5) by (rule rep_frame) (use h'(3) apart in auto)
      have "rep h' par p (del a (Node l b k v r))"
        using ab nb gb h'(2) rl nl by (simp add: del_notin)
      moreover have "\<forall>x. x \<notin> set (addrs (Node l b k v r)) \<longrightarrow> get h' x = get h x"
        using h'(3) by simp
      ultimately show ?thesis using h'(1) by blast
    qed
  qed
qed

lemma dropped_notin: "a \<notin> set (addrs t) \<Longrightarrow> dropped a t = {}"
  by (induction t) auto

lemma dropped_keys: "dropped a t \<subseteq> keys t"
  by (induction t) auto

lemma remove_rep:
  assumes "rep h None (root m) t" "bst t" "a \<in> set (addrs t)"
  shows "\<exists>h' m'. TreeMap_remove h m \<lparr>currentNode = Some a\<rparr> = Some (Inr (), h', m')
           \<and> rep h' None (root m') (del a t) \<and> bst (del a t)
           \<and> TreeMap_size m' = TreeMap_size m - 1"
proof (cases "root m = Some a")
  case True
  then have s: "rep h None (Some a) t" using assms(1) by simp
  from rep_node_key[OF assms(1) assms(3)] obtain n where n: "get h a = Some n" by blast
  have pn: "parent n = None" using s n by (cases t) auto
  let ?bp = "if rightChild n = None then leftChild n else rightChild n"
  from unlink_exists[OF s assms(2) n refl]
  obtain h1 where h1:
    "case ?bp of None \<Rightarrow> h1 = h
     | Some c \<Rightarrow> (\<exists>nc. get h c = Some nc \<and> h1 = h[c := Some (nc\<lparr>parent := parent n\<rparr>)])"
    "rep h1 None ?bp (del a t)"
    "get h1 a = Some n"
    by blast
  have sl: "(case parent n of
               None \<Rightarrow> Some root_slot
             | Some p \<Rightarrow> do {
                 pn \<leftarrow> get h p;
                 Some (if leftChild pn = Some a then leftChild_slot p else rightChild_slot p)
               }) = Some root_slot"
    using pn by simp
  have w: "write_slot h1 m root_slot ?bp = Some (h1, m\<lparr>root := ?bp\<rparr>)" by simp
  have ev: "TreeMap_remove h m \<lparr>currentNode = Some a\<rparr>
           = Some (Inr (), h1[a := None],
                   (m\<lparr>root := ?bp\<rparr>)\<lparr>TreeMap_size := TreeMap_size (m\<lparr>root := ?bp\<rparr>) - 1\<rparr>)"
    by (rule remove_eval[OF n sl refl h1(1) w h1(3)])
  note ad = addrs_del_root[OF s assms(2)]
  have "rep (h1[a := None]) None ?bp (del a t)"
    using h1(2) by (rule rep_frame) (use ad in \<open>auto simp: get_update\<close>)
  then show ?thesis using ev bst_del[OF assms(2)] by simp
next
  case False
  from remove_inner[OF assms False, of m]
  show ?thesis using bst_del[OF assms(2)] by auto
qed

lemma lookup_addr_side:
  assumes "rep h par p (Node l b k v r)" "bst (Node l b k v r)"
    "lookup_addr (Node l b k v r) x = Some a"
  shows "a = b \<longleftrightarrow> x = k"
    "a \<in> set (addrs l) \<longleftrightarrow> x < k"
    "a \<in> set (addrs r) \<longleftrightarrow> k < x"
proof -
  note apart = bst_addrs_apart[OF assms(1) assms(2)]
  consider "x = k" | "x < k" | "k < x" by (cases x k rule: linorder_cases) auto
  then have "(a = b \<longleftrightarrow> x = k) \<and> (a \<in> set (addrs l) \<longleftrightarrow> x < k) \<and> (a \<in> set (addrs r) \<longleftrightarrow> k < x)"
  proof cases
    case 1
    then show ?thesis using assms(3) apart by auto
  next
    case 2
    then have "lookup_addr l x = Some a" using assms(3) by (auto split: if_splits)
    then have "a \<in> set (addrs l)" by (rule lookup_addr_in_addrs)
    then show ?thesis using 2 apart by auto
  next
    case 3
    then have "lookup_addr r x = Some a" using assms(3) by (auto split: if_splits)
    then have "a \<in> set (addrs r)" by (rule lookup_addr_in_addrs)
    then show ?thesis using 3 apart by auto
  qed
  then show "a = b \<longleftrightarrow> x = k" "a \<in> set (addrs l) \<longleftrightarrow> x < k" "a \<in> set (addrs r) \<longleftrightarrow> k < x"
    by auto
qed

text \<open>The entries after the removal of the node of the key \<open>x\<close>: the entry of \<open>x\<close> is
  gone, and so are the entries of the left subtree when the node had two children.\<close>

lemma entries_del:
  assumes "rep h par p t" "bst t" "lookup_addr t x = Some a"
  shows "entries (del a t) = (entries t) |` (- insert x (dropped a t))"
  using assms
proof (induction t arbitrary: par p)
  case Leaf
  then show ?case by simp
next
  case (Node l b k v r)
  from Node.prems(1) obtain nb where nb: "get h b = Some nb"
    "rep h (Some b) (leftChild nb) l" "rep h (Some b) (rightChild nb) r"
    by (rule rep_NodeE)
  note side = lookup_addr_side[OF Node.prems]
  note apart = bst_addrs_apart[OF Node.prems(1) Node.prems(2)]
  have bl: "bst l" and br: "bst r" using Node.prems(2) by auto
  have kl: "\<And>y. y \<in> keys l \<Longrightarrow> y < k" and kr: "\<And>y. y \<in> keys r \<Longrightarrow> k < y"
    using Node.prems(2) by auto
  have el: "\<And>y. \<not> y < k \<Longrightarrow> entries l y = None"
    using kl by (auto simp: entries_None_iff)
  have er: "\<And>y. \<not> k < y \<Longrightarrow> entries r y = None"
    using kr by (auto simp: entries_None_iff)
  consider "x = k" | "x < k" | "k < x" by (cases x k rule: linorder_cases) auto
  then show ?case
  proof cases
    case 1
    then have ab: "a = b" using side by simp
    show ?thesis
    proof (rule ext)
      fix y
      show "entries (del a (Node l b k v r)) y
              = ((entries (Node l b k v r)) |` (- insert x (dropped a (Node l b k v r)))) y"
      proof (cases "r = Leaf")
        case True
        then show ?thesis using ab 1 el[of y] Node.prems(2)
          by (auto simp: entries_Node restrict_map_def)
      next
        case False
        have "y \<in> keys l \<Longrightarrow> entries r y = None" using kl[of y] er[of y] by auto
        moreover have "y \<notin> keys l \<Longrightarrow> entries l y = None" by (simp add: entries_None_iff)
        ultimately show ?thesis using ab 1 False er[of y] Node.prems(2)
          by (auto simp: entries_Node restrict_map_def)
      qed
    qed
  next
    case 2
    then have al: "a \<in> set (addrs l)" "a \<noteq> b" "a \<notin> set (addrs r)" using side apart by auto
    have la: "lookup_addr l x = Some a" using Node.prems(3) 2 by (auto split: if_splits)
    have IH: "entries (del a l) = entries l |` (- insert x (dropped a l))"
      by (rule Node.IH(1)[OF nb(2) bl la])
    have b': "bst (Node (del a l) b k v r)"
      using bst_del[OF Node.prems(2), of a] al by (simp add: del_notin)
    have dk: "\<And>y. y \<in> dropped a l \<Longrightarrow> y < k" using dropped_keys[of a l] kl by auto
    show ?thesis
    proof (rule ext)
      fix y
      show "entries (del a (Node l b k v r)) y
              = ((entries (Node l b k v r)) |` (- insert x (dropped a (Node l b k v r)))) y"
        using al 2 IH dk[of y] b' Node.prems(2)
        by (auto simp: entries_Node del_notin dropped_notin restrict_map_def)
    qed
  next
    case 3
    then have ar: "a \<in> set (addrs r)" "a \<noteq> b" "a \<notin> set (addrs l)" using side apart by auto
    have la: "lookup_addr r x = Some a" using Node.prems(3) 3 by (auto split: if_splits)
    have IH: "entries (del a r) = entries r |` (- insert x (dropped a r))"
      by (rule Node.IH(2)[OF nb(3) br la])
    have b': "bst (Node l b k v (del a r))"
      using bst_del[OF Node.prems(2), of a] ar by (simp add: del_notin)
    have dk: "\<And>y. y \<in> dropped a r \<Longrightarrow> k < y" using dropped_keys[of a r] kr by auto
    show ?thesis
    proof (rule ext)
      fix y
      show "entries (del a (Node l b k v r)) y
              = ((entries (Node l b k v r)) |` (- insert x (dropped a (Node l b k v r)))) y"
        using ar 3 IH dk[of y] b' Node.prems(2)
        by (auto simp: entries_Node del_notin dropped_notin restrict_map_def)
    qed
  qed
qed

lemma remove_key_rep:
  assumes "rep h None (root m) t" "bst t" "x \<in> keys t"
  shows "\<exists>a h' m'. lookup_addr t x = Some a
           \<and> TreeMap_remove_key h m x = Some (Inr (), h', m')
           \<and> rep h' None (root m') (del a t) \<and> bst (del a t)
           \<and> entries (del a t) = (entries t) |` (- insert x (dropped a t))
           \<and> TreeMap_size m' = TreeMap_size m - 1"
proof -
  from lookup_addr_present[OF assms(2) assms(3)] obtain a where
    a: "lookup_addr t x = Some a" "a \<in> set (addrs t)" by blast
  have f: "TreeMap_find h m x = Some \<lparr>currentNode = Some a\<rparr>"
    using findNode_loop_rep[OF assms(1), of x] a(1)
    by (simp add: TreeMap_find_def TreeMap_findNode_def)
  from remove_rep[OF assms(1) assms(2) a(2)] entries_del[OF assms(1) assms(2) a(1)] a(1) f
  show ?thesis by (auto simp: TreeMap_remove_key_def)
qed

lemma HashMap_inv_empty: "HashMap_inv T HashMap_empty"
  by (simp add: HashMap_inv_def HashMap_empty_def)

lemma map_of_remove_found:
  "distinct (map fst b) \<Longrightarrow> find_if_key b k < length b \<Longrightarrow>
     map_of (take (find_if_key b k) b @ drop (Suc (find_if_key b k)) b) = (map_of b) |` (- {k})"
proof (induction b)
  case Nil
  then show ?case by simp
next
  case (Cons v b)
  show ?case
  proof (cases "fst v = k")
    case True
    then have "k \<notin> fst ` set b" using Cons.prems(1) by auto
    then have "map_of b k = None" by (simp add: map_of_eq_None_iff)
    then show ?thesis using True by (auto simp: restrict_map_def)
  next
    case False
    then show ?thesis using Cons by (auto simp: restrict_map_def)
  qed
qed

lemma HashMap_remove_key_spec:
  assumes "HashMap_inv T m" "k \<in> dom (HashMap_entries m)"
  shows "\<exists>m'. HashMap_remove_key T m k = Some (Inr (), m')
           \<and> HashMap_inv T m'
           \<and> HashMap_entries m' = (HashMap_entries m) |` (- {k})
           \<and> HashMap_size m' = HashMap_size m - 1"
proof -
  let ?i = "HashMap_findBucket T k"
  let ?b = "buckets m ! ?i"
  let ?j = "find_if_key ?b k"
  let ?b' = "take ?j ?b @ drop (Suc ?j) ?b"
  let ?m' = "m\<lparr>buckets := (buckets m)[?i := ?b'], HashMap_size := HashMap_size m - 1\<rparr>"
  have len: "length (buckets m) = MAP_SIZE" using assms(1) by (simp add: HashMap_inv_def)
  have i: "?i < length (buckets m)" using len findBucket_less[of T k] by simp
  have "map_of ?b k \<noteq> None" using entries_bucket[OF assms(1), of k] assms(2) by (metis domIff)
  then have "k \<in> fst ` set ?b" by (simp add: map_of_eq_None_iff)
  then have "?j \<noteq> length ?b" by (simp add: find_if_key_end)
  then have j: "?j < length ?b" using find_if_key_le[of ?b k] by simp
  have d: "distinct (map fst ?b)" using assms(1) findBucket_less[of T k] by (simp add: HashMap_inv_def)
  have op: "HashMap_remove_key T m k = Some (Inr (), ?m')"
    using j by (simp add: HashMap_remove_key_def HashMap_findInBucket_def Let_def)
  have sub: "set ?b' \<subseteq> set ?b"
    using set_take_subset[of ?j ?b] set_drop_subset[of "Suc ?j" ?b] by auto
  have d': "distinct (map fst ?b')"
  proof -
    have "map fst ?b = map fst (take ?j ?b) @ map fst (drop ?j ?b)"
      by (metis append_take_drop_id map_append)
    moreover have "drop ?j ?b = ?b ! ?j # drop (Suc ?j) ?b" using j by (simp add: Cons_nth_drop_Suc)
    ultimately show ?thesis using d by auto
  qed
  have inv': "HashMap_inv T ?m'"
    unfolding HashMap_inv_def
  proof (intro conjI allI impI)
    show "length (buckets ?m') = MAP_SIZE" using len by simp
  next
    fix x assume x: "x < MAP_SIZE"
    show "\<forall>v\<in>set (buckets ?m' ! x). HashMap_findBucket T (fst v) = x"
    proof (cases "x = ?i")
      case True
      have "\<forall>v\<in>set ?b. HashMap_findBucket T (fst v) = ?i"
        using assms(1) findBucket_less[of T k] by (simp add: HashMap_inv_def)
      then have "\<forall>v\<in>set ?b'. HashMap_findBucket T (fst v) = ?i" using sub by blast
      then show ?thesis using True i by simp
    next
      case False
      then show ?thesis using assms(1) x by (simp add: HashMap_inv_def)
    qed
    show "distinct (map fst (buckets ?m' ! x))"
    proof (cases "x = ?i")
      case True
      then show ?thesis using d' i by simp
    next
      case False
      then show ?thesis using assms(1) x by (simp add: HashMap_inv_def)
    qed
  qed
  have en: "HashMap_entries ?m' = (HashMap_entries m) |` (- {k})"
  proof (rule ext)
    fix y
    show "HashMap_entries ?m' y = ((HashMap_entries m) |` (- {k})) y"
    proof (cases "HashMap_findBucket T y = ?i")
      case True
      then show ?thesis
        using entries_bucket[OF inv', of y] entries_bucket[OF assms(1), of y] i
          map_of_remove_found[OF d j]
        by (simp add: restrict_map_def)
    next
      case False
      then have "y \<noteq> k" by auto
      then show ?thesis
        using entries_bucket[OF inv', of y] entries_bucket[OF assms(1), of y] False
        by (simp add: restrict_map_def)
    qed
  qed
  show ?thesis using op inv' en by simp
qed

subsection \<open>Looking up or removing an absent key\<close>

text \<open>
  In a table of \<open>MAP_SIZE\<close> buckets that has no entry for the key, \<^verbatim>\<open>valueOf\<close> and
  \<^verbatim>\<open>remove(key)\<close> evaluate the message expression and throw; they have a defined
  result exactly where the message expression has one.
\<close>

lemma HashMap_absent_key_result:
  assumes "length (buckets m) = MAP_SIZE" "k \<notin> dom (HashMap_entries m)"
  shows "HashMap_valueOf T m k
           = map_option (\<lambda>msg. (Inl (out_of_range msg), m))
               (literal_plus T ''Map does not contain key: '' k)"
    and "HashMap_remove_key T m k
           = map_option (\<lambda>msg. (Inl (out_of_range msg), m))
               (literal_plus T ''Map does not contain key: '' k)"
proof -
  have e: "find_if_key (buckets m ! HashMap_findBucket T k) k
             = length (buckets m ! HashMap_findBucket T k)"
    using assms by (rule HashMap_absent_bucket)
  show "HashMap_valueOf T m k
           = map_option (\<lambda>msg. (Inl (out_of_range msg), m))
               (literal_plus T ''Map does not contain key: '' k)"
    using e
    by (cases "literal_plus T ''Map does not contain key: '' k")
       (simp_all add: HashMap_valueOf_def HashMap_findOrThrow_def)
  show "HashMap_remove_key T m k
           = map_option (\<lambda>msg. (Inl (out_of_range msg), m))
               (literal_plus T ''Map does not contain key: '' k)"
    using e
    by (cases "literal_plus T ''Map does not contain key: '' k")
       (simp_all add: HashMap_remove_key_def HashMap_findInBucket_def)
qed

text \<open>
  For \<^verbatim>\<open>HashMap<int, int>\<close> the message is cut at the front by the key, and for a key
  beyond the literal (here 27 and 1000000000) or a negative key the call has no defined
  result.
\<close>

lemma HashMap_absent_int_key_message:
  "map_option fst (HashMap_remove_key \<lparr>hash = nat, mapped_type = 0::int, literal_plus = literal_plus_int\<rparr>
      HashMap_empty 0) = Some (Inl (out_of_range ''Map does not contain key: ''))
   \<and> map_option fst (HashMap_remove_key \<lparr>hash = nat, mapped_type = 0::int, literal_plus = literal_plus_int\<rparr>
      HashMap_empty 26) = Some (Inl (out_of_range []))
   \<and> HashMap_remove_key \<lparr>hash = nat, mapped_type = 0::int, literal_plus = literal_plus_int\<rparr>
      HashMap_empty 27 = None
   \<and> HashMap_valueOf \<lparr>hash = nat, mapped_type = 0::int, literal_plus = literal_plus_int\<rparr>
      HashMap_empty 1000000000 = None
   \<and> HashMap_valueOf \<lparr>hash = nat, mapped_type = 0::int, literal_plus = literal_plus_int\<rparr>
      HashMap_empty (- 1) = None"
  by (simp add: HashMap_remove_key_def HashMap_valueOf_def HashMap_findOrThrow_def
      HashMap_findInBucket_def HashMap_findBucket_def HashMap_empty_def MAP_SIZE_def
      literal_plus_int_def)

text \<open>
  C2 (amended).  For both maps, \<^verbatim>\<open>valueOf(key)\<close> and \<^verbatim>\<open>remove(key)\<close> throw
  \<^verbatim>\<open>std::out_of_range\<close> whenever no entry of the map has the key, and leave the map (and
  the heap) unchanged; for the HashMap this is so whenever the message expression
  \<^verbatim>\<open>"Map does not contain key: " + key\<close> has a value \<open>msg\<close>, which is then the message
  of the exception.  The exception is of the same type as the one the iterators throw,
  and the TreeMap throws it with their message, \<^verbatim>\<open>out_of_range("Iterator out of range")\<close>.
  The TreeMap half holds for every heap that holds a tree at the root of the map, the
  HashMap half for every table of \<open>MAP_SIZE\<close> buckets.
\<close>

theorem absent_key_throws_out_of_range:
  "(rep h None (root tm) t \<and> k \<notin> dom (entries t) \<longrightarrow>
      TreeMap_valueOf h tm k = Some (Inl (out_of_range ''Iterator out of range''), h, tm)
    \<and> TreeMap_remove_key h tm k = Some (Inl (out_of_range ''Iterator out of range''), h, tm))
   \<and> (length (buckets hm) = MAP_SIZE \<and> k' \<notin> dom (HashMap_entries hm)
        \<and> literal_plus T ''Map does not contain key: '' k' = Some msg \<longrightarrow>
      HashMap_valueOf T hm k' = Some (Inl (out_of_range msg), hm)
    \<and> HashMap_remove_key T hm k' = Some (Inl (out_of_range msg), hm))"
proof (intro conjI impI)
  assume a: "rep h None (root tm) t \<and> k \<notin> dom (entries t)"
  then have l: "lookup_addr t k = None" by (simp add: dom_entries lookup_addr_absent)
  show "TreeMap_valueOf h tm k = Some (Inl (out_of_range ''Iterator out of range''), h, tm)"
    using a l valueOf_rep[of h tm t k] by simp
  show "TreeMap_remove_key h tm k = Some (Inl (out_of_range ''Iterator out of range''), h, tm)"
    using a l remove_key_absent[of h tm t k] by simp
next
  assume a: "length (buckets hm) = MAP_SIZE \<and> k' \<notin> dom (HashMap_entries hm)
        \<and> literal_plus T ''Map does not contain key: '' k' = Some msg"
  show "HashMap_valueOf T hm k' = Some (Inl (out_of_range msg), hm)"
    using a HashMap_absent_key_result(1)[of hm k' T] by simp
  show "HashMap_remove_key T hm k' = Some (Inl (out_of_range msg), hm)"
    using a HashMap_absent_key_result(2)[of hm k' T] by simp
qed

text \<open>
  The theorem at the TreeMap \<open>{5 \<mapsto> 50}\<close> for the key 3, at the empty
  \<^verbatim>\<open>HashMap<int, int>\<close> for the key 3, where the message is the literal without its
  first three characters, and at the empty \<^verbatim>\<open>HashMap<std::string, int>\<close> for the key
  \<^verbatim>\<open>"abc"\<close>.
\<close>

theorem absent_key_throws_out_of_range_witness:
  "rep [Some \<lparr>val = (5::int, 50::int), parent = None, leftChild = None, rightChild = None,
               height = 0\<rparr>] None (root \<lparr>root = Some 0, TreeMap_size = 1\<rparr>) (Node Leaf 0 5 50 Leaf)
   \<and> (3::int) \<notin> dom (entries (Node Leaf 0 (5::int) (50::int) Leaf))
   \<and> TreeMap_valueOf [Some \<lparr>val = (5::int, 50::int), parent = None, leftChild = None,
                              rightChild = None, height = 0\<rparr>] \<lparr>root = Some 0, TreeMap_size = 1\<rparr> 3
        = Some (Inl (out_of_range ''Iterator out of range''),
                [Some \<lparr>val = (5, 50), parent = None, leftChild = None, rightChild = None,
                        height = 0\<rparr>], \<lparr>root = Some 0, TreeMap_size = 1\<rparr>)
   \<and> length (buckets (HashMap_empty :: (int, int) HashMap)) = MAP_SIZE
   \<and> (3::int) \<notin> dom (HashMap_entries (HashMap_empty :: (int, int) HashMap))
   \<and> literal_plus \<lparr>hash = nat, mapped_type = 0::int, literal_plus = literal_plus_int\<rparr>
        ''Map does not contain key: '' 3 = Some '' does not contain key: ''
   \<and> HashMap_remove_key \<lparr>hash = nat, mapped_type = 0::int, literal_plus = literal_plus_int\<rparr>
        HashMap_empty (3::int)
        = Some (Inl (out_of_range '' does not contain key: ''), HashMap_empty)
   \<and> HashMap_valueOf \<lparr>hash = nat, mapped_type = 0::int, literal_plus = literal_plus_int\<rparr>
        HashMap_empty (3::int)
        = Some (Inl (out_of_range '' does not contain key: ''), HashMap_empty)
   \<and> length (buckets (HashMap_empty :: (string, int) HashMap)) = MAP_SIZE
   \<and> ''abc'' \<notin> dom (HashMap_entries (HashMap_empty :: (string, int) HashMap))
   \<and> literal_plus \<lparr>hash = length, mapped_type = 0::int, literal_plus = literal_plus_string\<rparr>
        ''Map does not contain key: '' ''abc'' = Some ''Map does not contain key: abc''
   \<and> HashMap_remove_key \<lparr>hash = length, mapped_type = 0::int, literal_plus = literal_plus_string\<rparr>
        HashMap_empty ''abc''
        = Some (Inl (out_of_range ''Map does not contain key: abc''), HashMap_empty)
   \<and> HashMap_valueOf \<lparr>hash = length, mapped_type = 0::int, literal_plus = literal_plus_string\<rparr>
        HashMap_empty ''abc''
        = Some (Inl (out_of_range ''Map does not contain key: abc''), HashMap_empty)"
proof -
  let ?h = "[Some \<lparr>val = (5::int, 50::int), parent = None, leftChild = None, rightChild = None,
               height = 0\<rparr>]"
  let ?m = "\<lparr>root = Some 0, TreeMap_size = 1\<rparr>"
  let ?t = "Node Leaf 0 (5::int) (50::int) Leaf"
  let ?T = "\<lparr>hash = nat, mapped_type = 0::int, literal_plus = literal_plus_int\<rparr>"
  let ?S = "\<lparr>hash = length, mapped_type = 0::int, literal_plus = literal_plus_string\<rparr>"
  have 1: "rep ?h None (root ?m) ?t" by (simp add: get_def)
  have 2: "(3::int) \<notin> dom (entries ?t)" by (simp add: entries_def)
  have 3: "length (buckets (HashMap_empty :: (int, int) HashMap)) = MAP_SIZE"
    by (simp add: HashMap_empty_def)
  have 4: "(3::int) \<notin> dom (HashMap_entries (HashMap_empty :: (int, int) HashMap))"
    by (simp add: HashMap_entries_def HashMap_empty_def MAP_SIZE_def)
  have 5: "literal_plus ?T ''Map does not contain key: '' 3 = Some '' does not contain key: ''"
    by (simp add: literal_plus_int_def)
  have 6: "length (buckets (HashMap_empty :: (string, int) HashMap)) = MAP_SIZE"
    by (simp add: HashMap_empty_def)
  have 7: "''abc'' \<notin> dom (HashMap_entries (HashMap_empty :: (string, int) HashMap))"
    by (simp add: HashMap_entries_def HashMap_empty_def MAP_SIZE_def)
  have 8: "literal_plus ?S ''Map does not contain key: '' ''abc''
             = Some ''Map does not contain key: abc''"
    by (simp add: literal_plus_string_def)
  have A: "TreeMap_valueOf ?h ?m 3 = Some (Inl (out_of_range ''Iterator out of range''), ?h, ?m)"
    and B: "HashMap_valueOf ?T HashMap_empty (3::int)
              = Some (Inl (out_of_range '' does not contain key: ''), HashMap_empty)"
           "HashMap_remove_key ?T HashMap_empty (3::int)
              = Some (Inl (out_of_range '' does not contain key: ''), HashMap_empty)"
    using 1 2 3 4 5
      absent_key_throws_out_of_range
        [of ?h ?m ?t 3 "HashMap_empty :: (int, int) HashMap" 3 ?T "'' does not contain key: ''"]
    by blast+
  have C: "HashMap_valueOf ?S HashMap_empty ''abc''
              = Some (Inl (out_of_range ''Map does not contain key: abc''), HashMap_empty)"
           "HashMap_remove_key ?S HashMap_empty ''abc''
              = Some (Inl (out_of_range ''Map does not contain key: abc''), HashMap_empty)"
    using 6 7 8
      absent_key_throws_out_of_range
        [of "[] :: (int, int) heap" TreeMap_empty Leaf 0
            "HashMap_empty :: (string, int) HashMap" "''abc''" ?S
            "''Map does not contain key: abc''"]
    by blast+
  show ?thesis using 1 2 3 4 5 6 7 8 A B C by blast
qed

text \<open>
  C2 as stated fails: in a TreeMap the error for an absent key is not distinct from the
  error of the iterators.  \<^verbatim>\<open>valueOf(1)\<close> on the empty map throws exactly what
  dereferencing \<^verbatim>\<open>end()\<close> throws, and \<^verbatim>\<open>remove(1)\<close> exactly what incrementing
  \<^verbatim>\<open>end()\<close> throws.
\<close>

theorem TreeMap_absent_key_error_is_iterator_error:
  "map_option fst (TreeMap_valueOf ([] :: (int, int) heap) TreeMap_empty 1)
     = Some (Inl (out_of_range ''Iterator out of range''))
   \<and> TreeMap_ConstIterator_deref ([] :: (int, int) heap) TreeMap_end
     = Some (Inl (out_of_range ''Iterator out of range''))
   \<and> map_option fst (TreeMap_remove_key ([] :: (int, int) heap) TreeMap_empty 1)
     = Some (Inl (out_of_range ''Iterator out of range''))
   \<and> map_option fst (TreeMap_ConstIterator_incr ([] :: (int, int) heap) TreeMap_end)
     = Some (Inl (out_of_range ''Iterator out of range''))"
  by code_simp

subsection \<open>Forward iteration of a TreeMap\<close>

text \<open>
  C8.  Starting from an empty TreeMap (in any heap \<open>h0\<close>), after the insertions
  \<^verbatim>\<open>m[k] = v\<close> for any list \<open>vs\<close> of pairs, each insertion returns, and forward
  iteration from \<^verbatim>\<open>begin()\<close> to \<^verbatim>\<open>end()\<close> returns without error and visits the keys
  in strictly increasing order, each inserted key once.  Inserting the keys 5, 3, 8, 1, 4
  yields the sequence 1, 3, 4, 5, 8.
\<close>

theorem TreeMap_forward_iteration_increasing:
  "(\<exists>h m xs. TreeMap_of_list dflt h0 vs = Some (h, m)
        \<and> TreeMap_iterate h m = Some (Inr xs)
        \<and> sorted_wrt (<) (map fst xs)
        \<and> set (map fst xs) = fst ` set vs)
   \<and> do {
       (h, m) \<leftarrow> TreeMap_of_list (0::int) [] [(5::int, 0), (3, 0), (8, 0), (1, 0), (4, 0)];
       TreeMap_iterate h m
     } = Some (Inr [(1, 0), (3, 0), (4, 0), (5, 0), (8, 0)])"
proof
  have e: "rep h0 None (root TreeMap_empty) Leaf" by (simp add: TreeMap_empty_def)
  have "bst Leaf" by simp
  from put_all_rep[OF e this, of dflt vs]
  obtain h m t where r: "TreeMap_put_all dflt h0 TreeMap_empty vs = Some (h, m)"
      "rep h None (root m) t" "bst t" "keys t = fst ` set vs"
    by auto
  have "TreeMap_iterate h m = Some (Inr (inorder t))" using r(2,3) by (rule iterate_rep)
  moreover have "sorted_wrt (<) (map fst (inorder t))" using r(3) by (rule bst_sorted)
  moreover have "set (map fst (inorder t)) = fst ` set vs" using r(4) by (simp add: keys_def)
  ultimately show "\<exists>h m xs. TreeMap_of_list dflt h0 vs = Some (h, m)
        \<and> TreeMap_iterate h m = Some (Inr xs)
        \<and> sorted_wrt (<) (map fst xs)
        \<and> set (map fst xs) = fst ` set vs"
    using r(1) by (auto simp: TreeMap_of_list_def)
next
  show "do {
       (h, m) \<leftarrow> TreeMap_of_list (0::int) [] [(5::int, 0), (3, 0), (8, 0), (1, 0), (4, 0)];
       TreeMap_iterate h m
     } = Some (Inr [(1, 0), (3, 0), (4, 0), (5, 0), (8, 0)])"
    by code_simp
qed

text \<open>The theorem for the insertions \<open>m[2] = 20; m[1] = 10; m[2] = 30\<close>.\<close>

theorem TreeMap_forward_iteration_increasing_witness:
  "\<exists>h m xs. TreeMap_of_list (0::int) [] [(2::int, 20), (1, 10), (2, 30)] = Some (h, m)
        \<and> TreeMap_iterate h m = Some (Inr xs)
        \<and> sorted_wrt (<) (map fst xs)
        \<and> set (map fst xs) = {1, 2}"
  using TreeMap_forward_iteration_increasing[of "0::int" "[]" "[(2::int, 20), (1, 10), (2, 30)]"]
  by (simp add: insert_commute)

subsection \<open>operator[]\<close>

text \<open>
  C9.  For both maps \<^verbatim>\<open>operator[]\<close> returns, without an error, a reference to the
  value stored for the key.  If the key is absent, the map gains the entry
  \<open>key \<mapsto> mapped_type()\<close>, all other entries stay, and \<open>size\<close> grows by one; if the key
  is present, the map is unchanged.  Reading the reference gives the value of the key,
  \<^verbatim>\<open>valueOf(key)\<close> returns the same reference, and writing \<open>w\<close> through the reference
  makes \<open>w\<close> the value of the key and changes no other entry.  The TreeMap half holds
  for every heap that holds a search tree \<open>t\<close> at the root of the map, the HashMap half for
  every bucket table that satisfies its invariant.
\<close>

theorem operator_subscript_returns_or_creates:
  "(rep h None (root tm) t \<and> bst t \<longrightarrow>
      (\<exists>a h' tm' t'.
           TreeMap_operator_subscript dflt h tm k = Some (a, h', tm')
         \<and> rep h' None (root tm') t' \<and> bst t'
         \<and> entries t' = (if k \<in> dom (entries t) then entries t else (entries t)(k \<mapsto> dflt))
         \<and> TreeMap_size tm' = (if k \<in> dom (entries t) then TreeMap_size tm else TreeMap_size tm + 1)
         \<and> (k \<in> dom (entries t) \<longrightarrow> h' = h \<and> tm' = tm)
         \<and> TreeMap_ref_get h' a = entries t' k
         \<and> TreeMap_valueOf h' tm' k = Some (Inr a, h', tm')
         \<and> (\<forall>w. \<exists>h''. TreeMap_ref_set h' a w = Some h''
                  \<and> rep h'' None (root tm') (set_value a w t') \<and> bst (set_value a w t')
                  \<and> entries (set_value a w t') = (entries t')(k \<mapsto> w)
                  \<and> TreeMap_ref_get h'' a = Some w)))
   \<and> (HashMap_inv T hm \<longrightarrow>
      (\<exists>r hm'.
           HashMap_operator_subscript T hm k' = (r, hm')
         \<and> HashMap_inv T hm'
         \<and> HashMap_entries hm' = (if k' \<in> dom (HashMap_entries hm) then HashMap_entries hm
                                   else (HashMap_entries hm)(k' \<mapsto> mapped_type T))
         \<and> HashMap_size hm' = (if k' \<in> dom (HashMap_entries hm) then HashMap_size hm
                                else HashMap_size hm + 1)
         \<and> (k' \<in> dom (HashMap_entries hm) \<longrightarrow> hm' = hm)
         \<and> HashMap_ref_get hm' r = HashMap_entries hm' k'
         \<and> HashMap_valueOf T hm' k' = Some (Inr r, hm')
         \<and> (\<forall>w. \<exists>hm''. HashMap_ref_set hm' r w = Some hm''
                  \<and> HashMap_inv T hm''
                  \<and> HashMap_entries hm'' = (HashMap_entries hm')(k' \<mapsto> w)
                  \<and> HashMap_ref_get hm'' r = Some w)))"
  using TreeMap_subscript_spec[of h tm t dflt k] HashMap_subscript_spec[of T hm k']
  by blast

text \<open>The theorem at the TreeMap \<open>{5 \<mapsto> 50}\<close> and the empty HashMap, for the absent
  key 3: both maps create the entry \<open>3 \<mapsto> 0\<close>.\<close>

theorem operator_subscript_returns_or_creates_witness:
  "rep [Some \<lparr>val = (5::int, 50::int), parent = None, leftChild = None, rightChild = None,
               height = 0\<rparr>] None (root \<lparr>root = Some 0, TreeMap_size = 1\<rparr>) (Node Leaf 0 5 50 Leaf)
   \<and> bst (Node Leaf 0 (5::int) (50::int) Leaf)
   \<and> (\<exists>a h' tm'. TreeMap_operator_subscript (0::int)
          [Some \<lparr>val = (5::int, 50::int), parent = None, leftChild = None, rightChild = None,
                  height = 0\<rparr>] \<lparr>root = Some 0, TreeMap_size = 1\<rparr> 3 = Some (a, h', tm')
        \<and> TreeMap_size tm' = 2 \<and> TreeMap_ref_get h' a = Some 0)
   \<and> HashMap_inv \<lparr>hash = nat, mapped_type = 0::int, literal_plus = literal_plus_int\<rparr>
        (HashMap_empty :: (int, int) HashMap)
   \<and> (\<exists>r hm'. HashMap_operator_subscript \<lparr>hash = nat, mapped_type = 0::int, literal_plus = literal_plus_int\<rparr>
          HashMap_empty (3::int) = (r, hm')
        \<and> HashMap_size hm' = 1 \<and> HashMap_ref_get hm' r = Some 0)"
proof -
  let ?h = "[Some \<lparr>val = (5::int, 50::int), parent = None, leftChild = None, rightChild = None,
               height = 0\<rparr>]"
  let ?m = "\<lparr>root = Some 0, TreeMap_size = 1\<rparr>"
  let ?t = "Node Leaf 0 (5::int) (50::int) Leaf"
  let ?T = "\<lparr>hash = nat, mapped_type = 0::int, literal_plus = literal_plus_int\<rparr>"
  have 1: "rep ?h None (root ?m) ?t" by (simp add: get_def)
  have 2: "bst ?t" by simp
  have 3: "HashMap_inv ?T (HashMap_empty :: (int, int) HashMap)"
    by (simp add: HashMap_inv_def HashMap_empty_def)
  have 4: "(3::int) \<notin> dom (entries ?t)" by (simp add: entries_def)
  have 5: "(3::int) \<notin> dom (HashMap_entries (HashMap_empty :: (int, int) HashMap))"
    by (simp add: HashMap_entries_def HashMap_empty_def MAP_SIZE_def)
  have 6: "HashMap_size (HashMap_empty :: (int, int) HashMap) = 0"
    by (simp add: HashMap_empty_def)
  from operator_subscript_returns_or_creates
         [of ?h ?m ?t "0::int" 3 ?T "HashMap_empty :: (int, int) HashMap" 3] 1 2 3
  obtain a h' tm' t' r hm' where
    A: "TreeMap_operator_subscript (0::int) ?h ?m 3 = Some (a, h', tm')"
       "entries t' = (if 3 \<in> dom (entries ?t) then entries ?t else (entries ?t)(3 \<mapsto> 0))"
       "TreeMap_size tm' = (if 3 \<in> dom (entries ?t) then TreeMap_size ?m else TreeMap_size ?m + 1)"
       "TreeMap_ref_get h' a = entries t' 3"
    and B: "HashMap_operator_subscript ?T HashMap_empty (3::int) = (r, hm')"
       "HashMap_entries hm' = (if 3 \<in> dom (HashMap_entries (HashMap_empty :: (int, int) HashMap))
           then HashMap_entries HashMap_empty else (HashMap_entries HashMap_empty)(3 \<mapsto> mapped_type ?T))"
       "HashMap_size hm' = (if 3 \<in> dom (HashMap_entries (HashMap_empty :: (int, int) HashMap))
           then HashMap_size (HashMap_empty :: (int, int) HashMap)
           else HashMap_size (HashMap_empty :: (int, int) HashMap) + 1)"
       "HashMap_ref_get hm' r = HashMap_entries hm' 3"
    by blast
  have "TreeMap_size tm' = 2 \<and> TreeMap_ref_get h' a = Some 0" using A 4 by simp
  moreover have "HashMap_size hm' = 1 \<and> HashMap_ref_get hm' r = Some 0" using B 5 6 by simp
  ultimately show ?thesis using 1 2 3 A(1) B(1) by blast
qed

subsection \<open>Removal of a node with two children\<close>

text \<open>
  C1 (code defect).  The claim: removing any entry of a TreeMap, also one whose node has
  two children, leaves every other key retrievable.  The code: in a map built by
  inserting 5, 3 and 8, the node of 5 has the children 3 and 8; \<^verbatim>\<open>remove(5)\<close> returns
  normally, puts the right child in the place of the node and drops the left subtree, so
  afterwards \<^verbatim>\<open>find(3)\<close> is \<^verbatim>\<open>end()\<close>, \<^verbatim>\<open>valueOf(3)\<close> throws and iteration visits
  the key 8 only.
\<close>

theorem TreeMap_remove_two_children_drops_left_subtree:
  "do {
     (h, m) \<leftarrow> TreeMap_of_list (0::int) [] [(5::int, 50), (3, 30), (8, 80)];
     (r, h', m') \<leftarrow> TreeMap_remove_key h m 5;
     it \<leftarrow> TreeMap_find h' m' 3;
     v \<leftarrow> TreeMap_valueOf h' m' 3;
     xs \<leftarrow> TreeMap_iterate h' m';
     Some (r, it, fst v, xs)
   } = Some (Inr (), TreeMap_end, Inl (out_of_range ''Iterator out of range''), Inr [(8, 80)])"
  by code_simp

subsection \<open>Equality of tree maps may throw\<close>

text \<open>
  C3 (code defect).  The claim: \<^verbatim>\<open>operator==\<close> is total and never raises an error.
  The code: \<^verbatim>\<open>TreeMap::operator==\<close> looks every key of \<open>other\<close> up with \<^verbatim>\<open>valueOf\<close>,
  which throws for a key that \<open>this\<close> does not hold; comparing the maps \<open>{1 \<mapsto> 10}\<close>
  and \<open>{2 \<mapsto> 10}\<close> of equal size throws \<^verbatim>\<open>std::out_of_range\<close>.
\<close>

theorem TreeMap_operator_eq_throws:
  "do {
     (h, a) \<leftarrow> TreeMap_of_list (0::int) [] [(1::int, 10)];
     (h', b) \<leftarrow> TreeMap_of_list (0::int) h [(2::int, 10)];
     TreeMap_operator_eq h' a b
   } = Some (Inl (out_of_range ''Iterator out of range''))"
  by code_simp

subsection \<open>Moving leaves the size of the source\<close>

text \<open>
  C4 (code defect).  The claim: after a move the source is empty, its \<^verbatim>\<open>size()\<close> is 0.
  The code: the move constructors (and the move assignments) take the storage of the
  source and leave its \<^verbatim>\<open>size\<close> field as it was; a moved-from map that held one entry
  still reports size 1 and is not \<^verbatim>\<open>isEmpty()\<close>, in both containers, although its
  \<^verbatim>\<open>begin()\<close> equals its \<^verbatim>\<open>end()\<close> and the destination holds the entry.
\<close>

theorem move_leaves_size_of_source:
  "do {
     (h, m) \<leftarrow> TreeMap_of_list (0::int) [] [(1::int, 10)];
     b \<leftarrow> TreeMap_begin h (snd (TreeMap_move m));
     xs \<leftarrow> TreeMap_iterate h (fst (TreeMap_move m));
     Some (TreeMap_getSize (snd (TreeMap_move m)), TreeMap_isEmpty (snd (TreeMap_move m)),
           TreeMap_ConstIterator_eq b TreeMap_end, xs)
   } = Some (1, False, True, Inr [(1, 10)])
   \<and> do {
     m \<leftarrow> HashMap_of_list \<lparr>hash = nat, mapped_type = 0::int, literal_plus = literal_plus_int\<rparr>
            [(1::int, 10)];
     b \<leftarrow> HashMap_begin (snd (HashMap_move m));
     e \<leftarrow> HashMap_end (snd (HashMap_move m));
     Some (HashMap_getSize (snd (HashMap_move m)), HashMap_isEmpty (snd (HashMap_move m)),
           HashMap_ConstIterator_eq b e, buckets (fst (HashMap_move m)))
   } = Some (1, False, True, [[], [(1, 10)], [], [], [], [], [], [], [], [], []])"
  by code_simp

subsection \<open>Decrementing the first iterator of a hash map\<close>

text \<open>
  C5 (code defect).  The claim: decrementing \<^verbatim>\<open>begin()\<close> of a non-empty map signals an
  error.  The code: \<^verbatim>\<open>HashMap::ConstIterator::operator--\<close> on the first element of a
  non-empty bucket skips no bucket, finds the bucket non-empty and moves to the last
  element of the same bucket; on the map \<open>{3 \<mapsto> 1}\<close> decrementing \<^verbatim>\<open>begin()\<close> returns
  normally with the iterator unchanged.
\<close>

theorem HashMap_decrement_begin_returns:
  "do {
     m \<leftarrow> HashMap_of_list \<lparr>hash = nat, mapped_type = 0::int, literal_plus = literal_plus_int\<rparr>
            [(3::int, 1)];
     b \<leftarrow> HashMap_begin m;
     r \<leftarrow> HashMap_ConstIterator_decr (buckets m) b;
     Some (HashMap_isEmpty m, b, r)
   } = Some (False, \<lparr>currentBucket = 3, iter = (3, 0)\<rparr>,
             Inr (), \<lparr>currentBucket = 3, iter = (3, 0)\<rparr>)"
  by code_simp

subsection \<open>Equality of hash maps depends on the insertion order\<close>

text \<open>
  C6 (code defect).  The claim: two maps built from the same pairs in any two orders
  compare equal.  The code: \<^verbatim>\<open>HashMap::operator==\<close> compares the bucket lists position
  by position, and a bucket keeps its pairs in insertion order; with the hash the
  identity, the keys 0 and 11 share bucket 0, and the maps built from
  \<open>(0,1),(11,2)\<close> and from \<open>(11,2),(0,1)\<close> compare unequal.
\<close>

theorem HashMap_operator_eq_depends_on_order:
  "do {
     a \<leftarrow> HashMap_of_list \<lparr>hash = nat, mapped_type = 0::int, literal_plus = literal_plus_int\<rparr>
            [(0::int, 1), (11, 2)];
     b \<leftarrow> HashMap_of_list \<lparr>hash = nat, mapped_type = 0::int, literal_plus = literal_plus_int\<rparr>
            [(11::int, 2), (0, 1)];
     Some (buckets a, buckets b, HashMap_operator_eq a b)
   } = Some ([[(0, 1), (11, 2)], [], [], [], [], [], [], [], [], [], []],
             [[(11, 2), (0, 1)], [], [], [], [], [], [], [], [], [], []],
             False)"
  by code_simp

subsection \<open>Copy assignment of hash maps keeps the old entries\<close>

text \<open>
  C7 (code defect).  The claim: after copy assignment the target compares equal to the
  source.  The code: \<^verbatim>\<open>HashMap::operator=(const HashMap &)\<close> sets \<^verbatim>\<open>size\<close> to 0 and
  refills without emptying the buckets; assigning \<open>{2 \<mapsto> 20}\<close> to a map holding
  \<open>{1 \<mapsto> 10}\<close> leaves the target with both entries and size 1, unequal to the source.
\<close>

theorem HashMap_copy_assign_keeps_old_entries:
  "do {
     a \<leftarrow> HashMap_of_list \<lparr>hash = nat, mapped_type = 0::int, literal_plus = literal_plus_int\<rparr>
            [(1::int, 10)];
     b \<leftarrow> HashMap_of_list \<lparr>hash = nat, mapped_type = 0::int, literal_plus = literal_plus_int\<rparr>
            [(2::int, 20)];
     (r, s) \<leftarrow> HashMap_copy_assign \<lparr>hash = nat, mapped_type = 0::int, literal_plus = literal_plus_int\<rparr>
                 ((\<lambda>x. HashMap_empty)(0 := a, 1 := b)) 0 1;
     Some (r, s 0, HashMap_operator_eq (s 0) (s 1))
   } = Some (Inr (),
             \<lparr>buckets = [[], [(1, 10)], [(2, 20)], [], [], [], [], [], [], [], []],
                HashMap_size = 1\<rparr>,
             False)"
  by code_simp

subsection \<open>Self-assignment\<close>

text \<open>
  C10.  Copy-assigning or move-assigning a map to itself returns at once: the
  operators compare the two addresses first.  Nothing changes, neither the map (its size
  and its entries) nor any other map nor the heap, and no error is raised; this holds
  for both containers.
\<close>

theorem self_assignment_unchanged:
  "TreeMap_copy_assign dflt h s a a = Some (Inr (), h, s)
   \<and> TreeMap_move_assign h s a a = Some (Inr (), h, s)
   \<and> HashMap_copy_assign T s' a a = Some (Inr (), s')
   \<and> HashMap_move_assign s' a a = s'"
  by (simp add: TreeMap_copy_assign_def TreeMap_move_assign_def HashMap_copy_assign_def
      HashMap_move_assign_def)

end
